theory Spec2Isabelle
  imports Main "HOL-Library.Word"
begin

unbundle bit_operations_syntax

section \<open>Machine types, panics and constants\<close>

text \<open>
  Bytes are 8-bit words; the hash works on 32-bit words, the table holds 16-bit words and
  \<open>load64\<close> returns a 64-bit word. Go's \<open>int\<close> and \<open>uint\<close> are taken to be 64 bits wide
  (as on amd64); lengths and cursors are natural numbers below \<open>2 ^ 63\<close>, so their
  arithmetic never wraps, and the two places where the source subtracts below zero
  (\<open>uint(len(lit)-1)\<close> and \<open>len(src) - inputMargin\<close>) are written out.
\<close>

type_synonym byte = "8 word"
type_synonym u16 = "16 word"
type_synonym u32 = "32 word"
type_synonym u64 = "64 word"

text \<open>
  A run-time panic of the source is the left summand of the result: an index out of
  range, slice bounds out of range, or the explicit \<open>panic(ErrTooLarge)\<close> of \<open>Encode\<close>.
\<close>

datatype panic = ErrTooLarge | IndexOutOfRange | SliceBoundsOutOfRange

fun bindr :: "'e + 'a \<Rightarrow> ('a \<Rightarrow> 'e + 'b) \<Rightarrow> 'e + 'b" where
  "bindr (Inl e) f = Inl e"
| "bindr (Inr x) f = f x"

text \<open>
  Modelled from the spec: the tag kinds and the block size are declared in a file of the
  package that is not among the sources (Section 3: \<open>TAG_LITERAL = 0b00\<close>,
  \<open>TAG_COPY_1 = 0b01\<close>, \<open>TAG_COPY_2 = 0b10\<close>; \<open>MAX_BLOCK_SIZE = 65536\<close>).
\<close>

definition tagLiteral :: byte where "tagLiteral = 0"
definition tagCopy1 :: byte where "tagCopy1 = 1"
definition tagCopy2 :: byte where "tagCopy2 = 2"
definition maxBlockSize :: nat where "maxBlockSize = 65536"

definition inputMargin :: nat where "inputMargin = 16 - 1"
definition minNonLiteralBlockSize :: nat where "minNonLiteralBlockSize = 1 + 1 + inputMargin"

section \<open>Slices\<close>

text \<open>\<open>dst[i] = v\<close>: panics when \<open>i\<close> is not below \<open>len(dst)\<close>.\<close>

definition store :: "'a list \<Rightarrow> nat \<Rightarrow> 'a \<Rightarrow> panic + 'a list" where
  "store xs i v = (if i < length xs then Inr (xs[i := v]) else Inl IndexOutOfRange)"

text \<open>\<open>xs[i]\<close> as a value: panics when \<open>i\<close> is not below \<open>len(xs)\<close>.\<close>

definition fetch :: "'a list \<Rightarrow> nat \<Rightarrow> panic + 'a" where
  "fetch xs i = (if i < length xs then Inr (xs ! i) else Inl IndexOutOfRange)"

text \<open>\<open>xs[lo:hi]\<close> as a value: panics unless \<open>lo \<le> hi \<le> len(xs)\<close>.\<close>

definition slice :: "'a list \<Rightarrow> nat \<Rightarrow> nat \<Rightarrow> panic + 'a list" where
  "slice xs lo hi =
     (if lo \<le> hi \<and> hi \<le> length xs then Inr (take (hi - lo) (drop lo xs))
      else Inl SliceBoundsOutOfRange)"

text \<open>
  Go's builtin \<open>copy(dst, src)\<close>: copies \<open>min(len(dst), len(src))\<close> elements, never panics, and
  returns how many it copied.
\<close>

definition go_copy :: "'a list \<Rightarrow> 'a list \<Rightarrow> 'a list \<times> nat" where
  "go_copy dst src =
     (let n = min (length dst) (length src) in (take n src @ drop n dst, n))"

text \<open>
  A call \<open>n := f(dst[d:], ...)\<close> where \<open>f\<close> writes through the slice it is given: the slice
  expression \<open>dst[d:]\<close> panics when \<open>d > len(dst)\<close>, and the callee's writes land in
  \<open>dst\<close> from index \<open>d\<close> on (the slice shares the array of \<open>dst\<close>).
\<close>

definition tail_of :: "'a list \<Rightarrow> nat \<Rightarrow> panic + 'a list" where
  "tail_of dst d = (if d \<le> length dst then Inr (drop d dst) else Inl SliceBoundsOutOfRange)"

definition put_tail :: "'a list \<Rightarrow> nat \<Rightarrow> 'a list \<Rightarrow> 'a list" where
  "put_tail dst d t = take d dst @ t"

section \<open>Loads\<close>

definition load32 :: "byte list \<Rightarrow> nat \<Rightarrow> panic + u32" where
  "load32 b i =
     (if i + 4 \<le> length b
      then Inr (ucast (b ! i) OR push_bit 8 (ucast (b ! (i + 1)))
                OR push_bit 16 (ucast (b ! (i + 2))) OR push_bit 24 (ucast (b ! (i + 3))))
      else Inl SliceBoundsOutOfRange)"

definition load64 :: "byte list \<Rightarrow> nat \<Rightarrow> panic + u64" where
  "load64 b i =
     (if i + 8 \<le> length b
      then Inr (ucast (b ! i) OR push_bit 8 (ucast (b ! (i + 1)))
                OR push_bit 16 (ucast (b ! (i + 2))) OR push_bit 24 (ucast (b ! (i + 3)))
                OR push_bit 32 (ucast (b ! (i + 4))) OR push_bit 40 (ucast (b ! (i + 5)))
                OR push_bit 48 (ucast (b ! (i + 6))) OR push_bit 56 (ucast (b ! (i + 7))))
      else Inl SliceBoundsOutOfRange)"

section \<open>The tag emitters\<close>

text \<open>
  \<open>emitLiteral(dst, lit)\<close>. \<open>n := uint(len(lit)-1)\<close> wraps to \<open>2 ^ 64 - 1\<close> for the empty
  literal. The result is the slice after the writes and the number of bytes written.
\<close>

definition emitLiteral :: "byte list \<Rightarrow> byte list \<Rightarrow> panic + byte list \<times> nat" where
  "emitLiteral dst lit =
     (let n = (if length lit = 0 then 2 ^ 64 - 1 else length lit - 1) in
      bindr
        (if n < 60 then
           bindr (store dst 0 (push_bit 2 (of_nat n) OR tagLiteral)) (\<lambda>dst. Inr (dst, 1))
         else if n < 2 ^ 8 then
           bindr (store dst 0 (push_bit 2 60 OR tagLiteral)) (\<lambda>dst.
           bindr (store dst 1 (of_nat n)) (\<lambda>dst. Inr (dst, 2)))
         else
           bindr (store dst 0 (push_bit 2 61 OR tagLiteral)) (\<lambda>dst.
           bindr (store dst 1 (of_nat n)) (\<lambda>dst.
           bindr (store dst 2 (of_nat (drop_bit 8 n))) (\<lambda>dst. Inr (dst, 3)))))
        (\<lambda>(dst, i).
           if i \<le> length dst
           then (let (t, c) = go_copy (drop i dst) lit in Inr (take i dst @ t, i + c))
           else Inl SliceBoundsOutOfRange))"

text \<open>
  \<open>emitCopy(dst, offset, length)\<close>. \<open>offset\<close> and \<open>length\<close> are Go \<open>int\<close>s: \<open>uint8(x)\<close> keeps the
  low eight bits of the two's complement, \<open>x >> 8\<close> is the arithmetic shift. The first
  function is the \<open>for length >= 68\<close> loop; it returns the slice, \<open>i\<close> and the remaining length.
\<close>

function emitCopy_loop :: "byte list \<Rightarrow> nat \<Rightarrow> int \<Rightarrow> int \<Rightarrow> panic + byte list \<times> nat \<times> int" where
  "emitCopy_loop dst i offset len =
     (if len \<ge> 68 then
        (case store dst (i + 0) (push_bit 2 63 OR tagCopy2) of Inl e \<Rightarrow> Inl e | Inr dst1 \<Rightarrow>
        (case store dst1 (i + 1) (word_of_int offset) of Inl e \<Rightarrow> Inl e | Inr dst2 \<Rightarrow>
        (case store dst2 (i + 2) (word_of_int (drop_bit 8 offset)) of Inl e \<Rightarrow> Inl e | Inr dst3 \<Rightarrow>
         emitCopy_loop dst3 (i + 3) offset (len - 64))))
      else Inr (dst, i, len))"
  by pat_completeness auto
termination
  by (relation "measure (\<lambda>(dst, i, offset, len). nat len)") auto

declare emitCopy_loop.simps [simp del]

definition emitCopy :: "byte list \<Rightarrow> int \<Rightarrow> int \<Rightarrow> panic + byte list \<times> nat" where
  "emitCopy dst offset len =
     bindr (emitCopy_loop dst 0 offset len) (\<lambda>(dst, i, len).
     bindr
       (if len > 64 then
          bindr (store dst (i + 0) (push_bit 2 59 OR tagCopy2)) (\<lambda>dst.
          bindr (store dst (i + 1) (word_of_int offset)) (\<lambda>dst.
          bindr (store dst (i + 2) (word_of_int (drop_bit 8 offset))) (\<lambda>dst.
          Inr (dst, i + 3, len - 60))))
        else Inr (dst, i, len))
       (\<lambda>(dst, i, len).
          if len \<ge> 12 \<or> offset \<ge> 2048 then
            bindr (store dst (i + 0) (push_bit 2 (word_of_int (len - 1)) OR tagCopy2)) (\<lambda>dst.
            bindr (store dst (i + 1) (word_of_int offset)) (\<lambda>dst.
            bindr (store dst (i + 2) (word_of_int (drop_bit 8 offset))) (\<lambda>dst.
            Inr (dst, i + 3))))
          else
            bindr (store dst (i + 0)
                     (push_bit 5 (word_of_int (drop_bit 8 offset))
                      OR push_bit 2 (word_of_int (len - 4)) OR tagCopy1)) (\<lambda>dst.
            bindr (store dst (i + 1) (word_of_int offset)) (\<lambda>dst.
            Inr (dst, i + 2)))))"


text \<open>The statements \<open>d += emitLiteral(dst[d:], lit)\<close> and \<open>d += emitCopy(dst[d:], offset, length)\<close>.\<close>

definition emitLiteral_at :: "byte list \<Rightarrow> nat \<Rightarrow> byte list \<Rightarrow> panic + byte list \<times> nat" where
  "emitLiteral_at dst d lit =
     bindr (tail_of dst d) (\<lambda>t. bindr (emitLiteral t lit) (\<lambda>(t, n). Inr (put_tail dst d t, d + n)))"

definition emitCopy_at :: "byte list \<Rightarrow> nat \<Rightarrow> int \<Rightarrow> int \<Rightarrow> panic + byte list \<times> nat" where
  "emitCopy_at dst d offset len =
     bindr (tail_of dst d) (\<lambda>t. bindr (emitCopy t offset len) (\<lambda>(t, n). Inr (put_tail dst d t, d + n)))"

section \<open>The block encoder\<close>

definition hash :: "u32 \<Rightarrow> u32 \<Rightarrow> u32" where
  "hash u shift = drop_bit (unat shift) (u * 0x1e35a7bd)"

definition maxTableSize :: nat where "maxTableSize = 2 ^ 14"
definition tableMask :: u32 where "tableMask = of_nat maxTableSize - 1"

text \<open>
  The loops of \<open>encodeBlock\<close> return only from states the code reaches (the table size
  doubles from 256, \<open>skip\<close> starts at 32, a match extends the cursor), so each is a partial
  function into \<open>option\<close>: \<open>None\<close> is a loop that runs forever, \<open>Some (Inl e)\<close> a panic.

  The loop \<open>for tableSize < maxTableSize && tableSize < len(src)\<close>, from \<open>shift\<close> and
  \<open>tableSize\<close> to their final values.
\<close>

partial_function (option) tableSizeLoop :: "u32 \<Rightarrow> nat \<Rightarrow> nat \<Rightarrow> (u32 \<times> nat) option" where
  "tableSizeLoop shift tableSize n =
     (if tableSize < maxTableSize \<and> tableSize < n
      then tableSizeLoop (shift - 1) (tableSize * 2) n
      else Some (shift, tableSize))"

declare tableSizeLoop.simps [code]

text \<open>
  The inner search loop. One iteration is \<open>searchStep\<close>; it ends in
  \<open>goto emitRemainder\<close> (\<open>SearchRemainder\<close>), in \<open>break\<close> with the table, \<open>s\<close>, \<open>candidate\<close> and
  \<open>nextHash\<close> (\<open>SearchMatch\<close>), or goes round again with the table, \<open>skip\<close>, \<open>nextS\<close> and
  \<open>nextHash\<close> (\<open>SearchNext\<close>). \<open>table[i] = uint16(s)\<close> keeps the low 16 bits of \<open>s\<close>.
\<close>

datatype search_exit = SearchRemainder | SearchMatch "u16 list" nat nat u32

datatype search_flow = SearchExit search_exit | SearchNext "u16 list" nat nat u32

definition searchStep ::
  "byte list \<Rightarrow> u32 \<Rightarrow> int \<Rightarrow> u16 list \<Rightarrow> nat \<Rightarrow> nat \<Rightarrow> u32 \<Rightarrow> panic + search_flow" where
  "searchStep src shift sLimit table skip nextS nextHash =
     (let s = nextS;
          bytesBetweenHashLookups = drop_bit 5 skip;
          nextS = s + bytesBetweenHashLookups;
          skip = skip + bytesBetweenHashLookups
      in if int nextS > sLimit then Inr (SearchExit SearchRemainder)
         else
           bindr (fetch table (unat (nextHash AND tableMask))) (\<lambda>c.
           let candidate = unat c in
           bindr (store table (unat (nextHash AND tableMask)) (of_nat s)) (\<lambda>table.
           bindr (load32 src nextS) (\<lambda>v.
           let nextHash = hash v shift in
           bindr (load32 src s) (\<lambda>a.
           bindr (load32 src candidate) (\<lambda>b.
           if a = b then Inr (SearchExit (SearchMatch table s candidate nextHash))
           else Inr (SearchNext table skip nextS nextHash)))))))"

partial_function (option) search ::
  "byte list \<Rightarrow> u32 \<Rightarrow> int \<Rightarrow> u16 list \<Rightarrow> nat \<Rightarrow> nat \<Rightarrow> u32 \<Rightarrow> (panic + search_exit) option" where
  "search src shift sLimit table skip nextS nextHash =
     (case searchStep src shift sLimit table skip nextS nextHash of
        Inl e \<Rightarrow> Some (Inl e)
      | Inr (SearchExit r) \<Rightarrow> Some (Inr r)
      | Inr (SearchNext table' skip' nextS' nextHash') \<Rightarrow>
          search src shift sLimit table' skip' nextS' nextHash')"

declare search.simps [code]

text \<open>
  The loop \<open>for i := candidate + 4; s < len(src) && src[i] == src[s]; i, s = i+1, s+1\<close>;
  its value is the final \<open>s\<close>.
\<close>

function extendMatch :: "byte list \<Rightarrow> nat \<Rightarrow> nat \<Rightarrow> panic + nat" where
  "extendMatch src i s =
     (if s < length src then
        (case fetch src i of
           Inl e \<Rightarrow> Inl e
         | Inr a \<Rightarrow> if a = src ! s then extendMatch src (i + 1) (s + 1) else Inr s)
      else Inr s)"
  by pat_completeness auto
termination
  by (relation "measure (\<lambda>(src, i, s). length src - s)") auto

declare extendMatch.simps [simp del]

text \<open>
  The copy loop. One iteration is \<open>copyStep\<close>; it ends in \<open>goto emitRemainder\<close> with
  \<open>dst\<close>, \<open>d\<close> and \<open>nextEmit\<close> (\<open>CopyRemainder\<close>), in \<open>break\<close> with \<open>dst\<close>, \<open>d\<close>, the table,
  \<open>nextEmit\<close>, \<open>s\<close> and \<open>nextHash\<close> (\<open>CopyBreak\<close>), or goes round again with \<open>dst\<close>, \<open>d\<close>, the
  table, \<open>s\<close> and \<open>candidate\<close> (\<open>CopyNext\<close>).
\<close>

datatype copy_exit =
    CopyRemainder "byte list" nat nat
  | CopyBreak "byte list" nat "u16 list" nat nat u32

datatype copy_flow = CopyExit copy_exit | CopyNext "byte list" nat "u16 list" nat nat

definition copyStep ::
  "byte list \<Rightarrow> u32 \<Rightarrow> int \<Rightarrow> byte list \<Rightarrow> nat \<Rightarrow> u16 list \<Rightarrow> nat \<Rightarrow> nat \<Rightarrow> panic + copy_flow" where
  "copyStep src shift sLimit dst d table s candidate =
     (let base = s; s = s + 4 in
      bindr (extendMatch src (candidate + 4) s) (\<lambda>s.
      bindr (emitCopy_at dst d (int base - int candidate) (int s - int base)) (\<lambda>(dst, d).
      let nextEmit = s in
      if int s \<ge> sLimit then Inr (CopyExit (CopyRemainder dst d nextEmit))
      else
        bindr (load64 src (s - 1)) (\<lambda>x.
        let prevHash = hash (ucast x) shift in
        bindr (store table (unat (prevHash AND tableMask)) (of_nat (s - 1))) (\<lambda>table.
        let currHash = hash (ucast (drop_bit 8 x)) shift in
        bindr (fetch table (unat (currHash AND tableMask))) (\<lambda>c.
        let candidate = unat c in
        bindr (store table (unat (currHash AND tableMask)) (of_nat s)) (\<lambda>table.
        bindr (load32 src candidate) (\<lambda>v.
        if ucast (drop_bit 8 x) \<noteq> v
        then Inr (CopyExit (CopyBreak dst d table nextEmit (s + 1)
                              (hash (ucast (drop_bit 16 x)) shift)))
        else Inr (CopyNext dst d table s candidate)))))))))"

partial_function (option) copyLoop ::
  "byte list \<Rightarrow> u32 \<Rightarrow> int \<Rightarrow> byte list \<Rightarrow> nat \<Rightarrow> u16 list \<Rightarrow> nat \<Rightarrow> nat
     \<Rightarrow> (panic + copy_exit) option" where
  "copyLoop src shift sLimit dst d table s candidate =
     (case copyStep src shift sLimit dst d table s candidate of
        Inl e \<Rightarrow> Some (Inl e)
      | Inr (CopyExit r) \<Rightarrow> Some (Inr r)
      | Inr (CopyNext dst' d' table' s' candidate') \<Rightarrow>
          copyLoop src shift sLimit dst' d' table' s' candidate')"

declare copyLoop.simps [code]

text \<open>
  The outer \<open>for\<close> loop: \<open>skip := 32\<close>, \<open>nextS := s\<close>, the search, the literal
  \<open>src[nextEmit:s]\<close>, the copy loop. Its value is \<open>dst\<close>, \<open>d\<close> and \<open>nextEmit\<close> at the label
  \<open>emitRemainder\<close>.
\<close>

partial_function (option) mainLoop ::
  "byte list \<Rightarrow> u32 \<Rightarrow> int \<Rightarrow> byte list \<Rightarrow> nat \<Rightarrow> u16 list \<Rightarrow> nat \<Rightarrow> nat \<Rightarrow> u32
     \<Rightarrow> (panic + byte list \<times> nat \<times> nat) option" where
  "mainLoop src shift sLimit dst d table nextEmit s nextHash =
     Option.bind (search src shift sLimit table 32 s nextHash) (\<lambda>r.
       case r of
         Inl e \<Rightarrow> Some (Inl e)
       | Inr SearchRemainder \<Rightarrow> Some (Inr (dst, d, nextEmit))
       | Inr (SearchMatch table' s' candidate nextHash') \<Rightarrow>
           (case bindr (slice src nextEmit s') (emitLiteral_at dst d) of
              Inl e \<Rightarrow> Some (Inl e)
            | Inr (dst', d') \<Rightarrow>
                Option.bind (copyLoop src shift sLimit dst' d' table' s' candidate) (\<lambda>r.
                  case r of
                    Inl e \<Rightarrow> Some (Inl e)
                  | Inr (CopyRemainder dst2 d2 nextEmit2) \<Rightarrow> Some (Inr (dst2, d2, nextEmit2))
                  | Inr (CopyBreak dst2 d2 table2 nextEmit2 s2 nextHash2) \<Rightarrow>
                      mainLoop src shift sLimit dst2 d2 table2 nextEmit2 s2 nextHash2)))"

declare mainLoop.simps [code]

text \<open>
  \<open>encodeBlock(dst, src)\<close>: the value is \<open>dst\<close> after the writes and the returned \<open>d\<close>.
\<close>

definition encodeBlock :: "byte list \<Rightarrow> byte list \<Rightarrow> (panic + byte list \<times> nat) option" where
  "encodeBlock dst src =
     Option.bind (tableSizeLoop (32 - 8) (2 ^ 8) (length src)) (\<lambda>(shift, tableSize).
       let table = replicate maxTableSize (0 :: u16);
           sLimit = int (length src) - int inputMargin;
           nextEmit = 0;
           s = 1
       in case load32 src s of
            Inl e \<Rightarrow> Some (Inl e)
          | Inr v \<Rightarrow>
              Option.bind (mainLoop src shift sLimit dst 0 table nextEmit s (hash v shift)) (\<lambda>r.
                case r of
                  Inl e \<Rightarrow> Some (Inl e)
                | Inr (dst', d, nextEmit') \<Rightarrow>
                    if nextEmit' < length src
                    then Some (bindr (slice src nextEmit' (length src)) (emitLiteral_at dst' d))
                    else Some (Inr (dst', d))))"

section \<open>Encode and MaxEncodedLen\<close>

text \<open>
  \<open>MaxEncodedLen(srcLen)\<close>: \<open>uint64(srcLen)\<close> is \<open>srcLen mod 2 ^ 64\<close>, and the sum is taken in
  \<open>uint64\<close>.
\<close>

definition MaxEncodedLen :: "int \<Rightarrow> int" where
  "MaxEncodedLen srcLen =
     (let n = srcLen mod 2 ^ 64 in
      if n > 0xffffffff then - 1
      else let n = (32 + n + n div 6) mod 2 ^ 64 in
           if n > 0xffffffff then - 1 else n)"

text \<open>
  \<open>binary.PutUvarint(buf, x)\<close> of the standard library, as its source reads:
  \<^verbatim>\<open>i := 0; for x >= 0x80 { buf[i] = byte(x) | 0x80; x >>= 7; i++ }; buf[i] = byte(x); return i + 1\<close>.
  \<open>x\<close> is below \<open>2 ^ 64\<close>, so the shifts are divisions of a natural number.
\<close>

function PutUvarint_loop :: "byte list \<Rightarrow> nat \<Rightarrow> nat \<Rightarrow> panic + byte list \<times> nat \<times> nat" where
  "PutUvarint_loop buf i x =
     (if x \<ge> 0x80 then
        (case store buf i (of_nat x OR 0x80) of
           Inl e \<Rightarrow> Inl e
         | Inr buf' \<Rightarrow> PutUvarint_loop buf' (i + 1) (drop_bit 7 x))
      else Inr (buf, i, x))"
  by pat_completeness auto
termination
  by (relation "measure (\<lambda>(buf, i, x). x)") (auto simp: drop_bit_eq_div)

declare PutUvarint_loop.simps [simp del]

definition PutUvarint :: "byte list \<Rightarrow> nat \<Rightarrow> panic + byte list \<times> nat" where
  "PutUvarint buf x =
     bindr (PutUvarint_loop buf 0 x) (\<lambda>(buf, i, x).
     bindr (store buf i (of_nat x)) (\<lambda>buf. Inr (buf, i + 1)))"

text \<open>
  The loop \<open>for len(src) > 0\<close> of \<open>Encode\<close>, from \<open>dst\<close>, \<open>d\<close> and \<open>src\<close> to the final
  \<open>dst\<close> and \<open>d\<close>.
\<close>

function Encode_loop :: "byte list \<Rightarrow> nat \<Rightarrow> byte list \<Rightarrow> (panic + byte list \<times> nat) option" where
  "Encode_loop dst d src =
     (if length src > 0 then
        (let p = (if length src > maxBlockSize then take maxBlockSize src else src);
             src' = (if length src > maxBlockSize then drop maxBlockSize src else [])
         in Option.bind
              (if length p < minNonLiteralBlockSize then Some (emitLiteral_at dst d p)
               else (case tail_of dst d of
                       Inl e \<Rightarrow> Some (Inl e)
                     | Inr t \<Rightarrow>
                         Option.bind (encodeBlock t p) (\<lambda>r.
                           case r of
                             Inl e \<Rightarrow> Some (Inl e)
                           | Inr (t', n) \<Rightarrow> Some (Inr (put_tail dst d t', d + n)))))
              (\<lambda>r. case r of
                     Inl e \<Rightarrow> Some (Inl e)
                   | Inr (dst', d') \<Rightarrow> Encode_loop dst' d' src'))
      else Some (Inr (dst, d)))"
  by pat_completeness auto
termination
  by (relation "measure (\<lambda>(dst, d, src). length src)") (auto simp: maxBlockSize_def)

declare Encode_loop.simps [simp del]

text \<open>
  \<open>Encode(dst, src)\<close>. The value is a pair: the caller's \<open>dst\<close> after the call (unchanged
  when \<open>Encode\<close> allocated a buffer of its own) and the returned slice \<open>dst[:d]\<close>.
\<close>

definition Encode :: "byte list \<Rightarrow> byte list \<Rightarrow> (panic + byte list \<times> byte list) option" where
  "Encode dst src =
     (let n = MaxEncodedLen (int (length src)) in
      if n < 0 then Some (Inl ErrTooLarge)
      else
        let fresh = int (length dst) < n;
            buf = (if fresh then replicate (nat n) 0 else dst)
        in case PutUvarint buf (length src) of
             Inl e \<Rightarrow> Some (Inl e)
           | Inr (buf1, d) \<Rightarrow>
               Option.bind (Encode_loop buf1 d src) (\<lambda>r.
                 case r of
                   Inl e \<Rightarrow> Some (Inl e)
                 | Inr (buf2, d') \<Rightarrow>
                     (case slice buf2 0 d' of
                        Inl e \<Rightarrow> Some (Inl e)
                      | Inr out \<Rightarrow> Some (Inr (if fresh then dst else buf2, out)))))"


section \<open>The framed writer\<close>

text \<open>
  Modelled from the spec: the framing constants and \<open>crc\<close> are declared in a file of the
  package that is not among the sources (Sections 3 and 6: the 10-byte magic chunk, the
  chunk types \<open>0x00\<close> and \<open>0x01\<close>, \<open>obuf_header_len = len(MAGIC_CHUNK) + 4 + 4\<close>, the
  output buffer of \<open>header + MaxEncodedLen(MAX_BLOCK_SIZE)\<close> bytes, and the masked CRC
  \<open>((crc >> 15) | (crc << 17)) + 0xa282ead8\<close> over CRC-32C, the reflected Castagnoli
  polynomial \<open>0x82F63B78\<close>, bit by bit).
\<close>

definition magicChunk :: "byte list" where
  "magicChunk = [0xff, 0x06, 0x00, 0x00, 0x73, 0x4e, 0x61, 0x50, 0x70, 0x59]"

definition chunkTypeCompressedData :: byte where "chunkTypeCompressedData = 0x00"
definition chunkTypeUncompressedData :: byte where "chunkTypeUncompressedData = 0x01"
definition obufHeaderLen :: nat where "obufHeaderLen = length magicChunk + 4 + 4"
definition maxEncodedLenOfMaxBlockSize :: nat where "maxEncodedLenOfMaxBlockSize = 76490"
definition obufLen :: nat where "obufLen = obufHeaderLen + maxEncodedLenOfMaxBlockSize"

definition crc32c_bit :: "u32 \<Rightarrow> u32" where
  "crc32c_bit c = (if bit c 0 then drop_bit 1 c XOR 0x82F63B78 else drop_bit 1 c)"

definition crc32c_byte :: "u32 \<Rightarrow> byte \<Rightarrow> u32" where
  "crc32c_byte c b = (crc32c_bit ^^ 8) (c XOR ucast b)"

definition crc32c :: "byte list \<Rightarrow> u32" where
  "crc32c bs = NOT (foldl crc32c_byte (NOT 0) bs)"

definition crc :: "byte list \<Rightarrow> u32" where
  "crc b = (let c = crc32c b in (drop_bit 15 c OR push_bit 17 c) + 0xa282ead8)"

text \<open>
  The sink is any \<open>io.Writer\<close>: it records the byte slices it is handed, and its answer to a
  call (\<open>None\<close> for a nil error) may depend on the calls before and on the bytes.
\<close>

datatype error = errClosed | SinkError nat

record sink =
  calls :: "byte list list"
  respond :: "byte list list \<Rightarrow> byte list \<Rightarrow> error option"

definition sink_Write :: "sink \<Rightarrow> byte list \<Rightarrow> sink \<times> error option" where
  "sink_Write k p = (k\<lparr>calls := calls k @ [p]\<rparr>, respond k (calls k) p)"

text \<open>
  The \<open>Writer\<close> struct. \<open>ibuf\<close> is \<open>None\<close> for the nil slice of an unbuffered writer; a
  non-nil \<open>ibuf\<close> has the capacity \<open>maxBlockSize\<close> that \<open>NewBufferedWriter\<close> gives it.
\<close>

record Writer =
  w :: sink
  err :: "error option"
  ibuf :: "byte list option"
  obuf :: "byte list"
  wroteStreamHeader :: bool

definition NewWriter :: "sink \<Rightarrow> Writer" where
  "NewWriter k =
     \<lparr>w = k, err = None, ibuf = None, obuf = replicate obufLen 0, wroteStreamHeader = False\<rparr>"

definition NewBufferedWriter :: "sink \<Rightarrow> Writer" where
  "NewBufferedWriter k =
     \<lparr>w = k, err = None, ibuf = Some [], obuf = replicate obufLen 0, wroteStreamHeader = False\<rparr>"

definition ibuf_len :: "Writer \<Rightarrow> nat" where
  "ibuf_len wr = (case ibuf wr of None \<Rightarrow> 0 | Some b \<Rightarrow> length b)"

definition ibuf_cap :: "Writer \<Rightarrow> nat" where
  "ibuf_cap wr = (case ibuf wr of None \<Rightarrow> 0 | Some b \<Rightarrow> maxBlockSize)"

text \<open>
  \<open>n := copy(w.ibuf[len(w.ibuf):cap(w.ibuf)], p); w.ibuf = w.ibuf[:len(w.ibuf)+n]\<close>: the
  writer after it, and \<open>n\<close>.
\<close>

definition ibuf_append :: "Writer \<Rightarrow> byte list \<Rightarrow> Writer \<times> nat" where
  "ibuf_append wr p =
     (let n = min (ibuf_cap wr - ibuf_len wr) (length p)
      in (wr\<lparr>ibuf := map_option (\<lambda>b. b @ take n p) (ibuf wr)\<rparr>, n))"

text \<open>
  One round of the loop \<open>for len(p) > 0\<close> of \<open>Writer.write\<close>, in three parts. Filling in
  the per-chunk header: the eight stores into \<open>w.obuf\<close>.
\<close>

definition fill_header :: "byte list \<Rightarrow> byte \<Rightarrow> nat \<Rightarrow> u32 \<Rightarrow> panic + byte list" where
  "fill_header b chunkType chunkLen checksum =
     bindr (store b (length magicChunk + 0) chunkType) (\<lambda>b.
     bindr (store b (length magicChunk + 1) (of_nat (drop_bit 0 chunkLen))) (\<lambda>b.
     bindr (store b (length magicChunk + 2) (of_nat (drop_bit 8 chunkLen))) (\<lambda>b.
     bindr (store b (length magicChunk + 3) (of_nat (drop_bit 16 chunkLen))) (\<lambda>b.
     bindr (store b (length magicChunk + 4) (ucast (drop_bit 0 checksum))) (\<lambda>b.
     bindr (store b (length magicChunk + 5) (ucast (drop_bit 8 checksum))) (\<lambda>b.
     bindr (store b (length magicChunk + 6) (ucast (drop_bit 16 checksum))) (\<lambda>b.
     store b (length magicChunk + 7) (ucast (drop_bit 24 checksum)))))))))"

text \<open>
  The two sink writes: \<open>w.obuf[obufStart:obufEnd]\<close> (here \<open>out\<close>), then \<open>uncompressed\<close> for
  an uncompressed chunk; an error of the sink is latched in \<open>w.err\<close> and returned.
\<close>

definition send_chunk :: "Writer \<Rightarrow> byte list \<Rightarrow> byte \<Rightarrow> byte list \<Rightarrow> Writer \<times> error option" where
  "send_chunk wr out chunkType uncompressed =
     (let (k, e) = sink_Write (w wr) out;
          wr = wr\<lparr>w := k\<rparr>
      in case e of
           Some er \<Rightarrow> (wr\<lparr>err := Some er\<rparr>, Some er)
         | None \<Rightarrow>
             if chunkType = chunkTypeUncompressedData then
               (let (k, e) = sink_Write (w wr) uncompressed;
                    wr = wr\<lparr>w := k\<rparr>
                in case e of
                     Some er \<Rightarrow> (wr\<lparr>err := Some er\<rparr>, Some er)
                   | None \<Rightarrow> (wr, None))
             else (wr, None))"

text \<open>
  The round, for the block \<open>uncompressed\<close> already cut from \<open>p\<close>: the writer after it, and
  the error of the sink if it gave one (the round then returns from \<open>write\<close>).
\<close>

definition write_block :: "Writer \<Rightarrow> byte list \<Rightarrow> (panic + Writer \<times> error option) option" where
  "write_block wr uncompressed =
     (let obufStart = (if \<not> wroteStreamHeader wr then 0 else length magicChunk);
          wr = (if \<not> wroteStreamHeader wr
                then wr\<lparr>wroteStreamHeader := True, obuf := fst (go_copy (obuf wr) magicChunk)\<rparr>
                else wr);
          checksum = crc uncompressed
      in case tail_of (obuf wr) obufHeaderLen of
           Inl e \<Rightarrow> Some (Inl e)
         | Inr t \<Rightarrow>
             Option.bind (Encode t uncompressed) (\<lambda>r.
               case r of
                 Inl e \<Rightarrow> Some (Inl e)
               | Inr (t', compressed) \<Rightarrow>
                   let wr = wr\<lparr>obuf := put_tail (obuf wr) obufHeaderLen t'\<rparr>;
                       raw = (length compressed \<ge> length uncompressed - length uncompressed div 8);
                       chunkType = (if raw then chunkTypeUncompressedData else chunkTypeCompressedData);
                       chunkLen = (if raw then 4 + length uncompressed else 4 + length compressed);
                       obufEnd = (if raw then obufHeaderLen else obufHeaderLen + length compressed)
                   in Some (
                     bindr (fill_header (obuf wr) chunkType chunkLen checksum) (\<lambda>b.
                     bindr (slice b obufStart obufEnd) (\<lambda>out.
                     Inr (send_chunk (wr\<lparr>obuf := b\<rparr>) out chunkType uncompressed))))))"

text \<open>The loop \<open>for len(p) > 0\<close> of \<open>Writer.write\<close>, and \<open>Writer.write\<close> itself.\<close>

function write_loop :: "Writer \<Rightarrow> byte list \<Rightarrow> nat \<Rightarrow> (panic + Writer \<times> nat \<times> error option) option" where
  "write_loop wr p nRet =
     (if length p > 0 then
        (let uncompressed = (if length p > maxBlockSize then take maxBlockSize p else p);
             p' = (if length p > maxBlockSize then drop maxBlockSize p else [])
         in Option.bind (write_block wr uncompressed) (\<lambda>r.
              case r of
                Inl e \<Rightarrow> Some (Inl e)
              | Inr (wr', Some er) \<Rightarrow> Some (Inr (wr', nRet, Some er))
              | Inr (wr', None) \<Rightarrow> write_loop wr' p' (nRet + length uncompressed)))
      else Some (Inr (wr, nRet, None)))"
  by pat_completeness auto
termination
  by (relation "measure (\<lambda>(wr, p, nRet). length p)") (auto simp: maxBlockSize_def)

declare write_loop.simps [simp del]

definition Writer_write :: "Writer \<Rightarrow> byte list \<Rightarrow> (panic + Writer \<times> nat \<times> error option) option" where
  "Writer_write wr p =
     (case err wr of
        Some e \<Rightarrow> Some (Inr (wr, 0, Some e))
      | None \<Rightarrow> write_loop wr p 0)"

text \<open>\<open>Flush\<close>: the writer after it and the error returned.\<close>

definition Flush :: "Writer \<Rightarrow> (panic + Writer \<times> error option) option" where
  "Flush wr =
     (case err wr of
        Some e \<Rightarrow> Some (Inr (wr, Some e))
      | None \<Rightarrow>
          if ibuf_len wr = 0 then Some (Inr (wr, None))
          else
            Option.bind (Writer_write wr (case ibuf wr of None \<Rightarrow> [] | Some b \<Rightarrow> b)) (\<lambda>r.
              case r of
                Inl e \<Rightarrow> Some (Inl e)
              | Inr (wr', n, e) \<Rightarrow>
                  (let wr2 = wr'\<lparr>ibuf := map_option (\<lambda>b. []) (ibuf wr')\<rparr>
                   in Some (Inr (wr2, err wr2)))))"

text \<open>
  The loop of \<open>Writer.Write\<close> for a buffered writer, from the writer, \<open>p\<close> and \<open>nRet\<close> to
  their values when it ends; then \<open>Write\<close> itself.
\<close>

partial_function (option) Write_loop ::
  "Writer \<Rightarrow> byte list \<Rightarrow> nat \<Rightarrow> (panic + Writer \<times> byte list \<times> nat) option" where
  "Write_loop wr p nRet =
     (if length p > ibuf_cap wr - ibuf_len wr \<and> err wr = None then
        (if ibuf_len wr = 0 then
           Option.bind (Writer_write wr p) (\<lambda>r.
             case r of
               Inl e \<Rightarrow> Some (Inl e)
             | Inr (wr', n, e) \<Rightarrow>
                 (case slice p n (length p) of
                    Inl e \<Rightarrow> Some (Inl e)
                  | Inr p' \<Rightarrow> Write_loop wr' p' (nRet + n)))
         else
           (let (wr1, n) = ibuf_append wr p
            in Option.bind (Flush wr1) (\<lambda>r.
                 case r of
                   Inl e \<Rightarrow> Some (Inl e)
                 | Inr (wr', e) \<Rightarrow>
                     (case slice p n (length p) of
                        Inl e \<Rightarrow> Some (Inl e)
                      | Inr p' \<Rightarrow> Write_loop wr' p' (nRet + n)))))
      else Some (Inr (wr, p, nRet)))"

declare Write_loop.simps [code]

definition Writer_Write :: "Writer \<Rightarrow> byte list \<Rightarrow> (panic + Writer \<times> nat \<times> error option) option" where
  "Writer_Write wr p =
     (if ibuf wr = None then Writer_write wr p
      else
        Option.bind (Write_loop wr p 0) (\<lambda>r.
          case r of
            Inl e \<Rightarrow> Some (Inl e)
          | Inr (wr', p', nRet) \<Rightarrow>
              (case err wr' of
                 Some e \<Rightarrow> Some (Inr (wr', nRet, Some e))
               | None \<Rightarrow>
                   (let (wr2, n) = ibuf_append wr' p' in Some (Inr (wr2, nRet + n, None))))))"

text \<open>\<open>Close\<close>: the writer after it and the error returned.\<close>

definition Close :: "Writer \<Rightarrow> (panic + Writer \<times> error option) option" where
  "Close wr =
     Option.bind (Flush wr) (\<lambda>r.
       case r of
         Inl e \<Rightarrow> Some (Inl e)
       | Inr (wr', e) \<Rightarrow>
           (let ret = err wr';
                wr2 = (if err wr' = None then wr'\<lparr>err := Some errClosed\<rparr> else wr')
            in Some (Inr (wr2, ret))))"

section \<open>Reference definitions\<close>

text \<open>
  The encodings as the specification words them (Sections 3, 4.1 and 4.2), to compare the
  emitters with. \<open>literal_header n\<close> is the tag of a literal of \<open>n + 1\<close> bytes: inline for
  \<open>n < 60\<close>, one extra byte for \<open>n < 256\<close>, otherwise two little-endian bytes.
\<close>

definition literal_header :: "nat \<Rightarrow> byte list" where
  "literal_header n =
     (if n < 60 then [push_bit 2 (of_nat n) OR tagLiteral]
      else if n < 256 then [push_bit 2 60 OR tagLiteral, of_nat n]
      else [push_bit 2 61 OR tagLiteral, of_nat (n mod 256), of_nat (n div 256)])"

text \<open>
  \<open>COPY_2\<close>: three bytes, the length minus one in the six high bits of the tag, the offset as
  16 bits little-endian. \<open>COPY_1\<close>: two bytes, the length minus four in three bits, the
  three high bits of the 11-bit offset in the tag and its low eight bits after it.
\<close>

definition copy2 :: "nat \<Rightarrow> nat \<Rightarrow> byte list" where
  "copy2 offset len =
     [push_bit 2 (of_nat (len - 1)) OR tagCopy2, of_nat (offset mod 256), of_nat (offset div 256)]"

definition copy1 :: "nat \<Rightarrow> nat \<Rightarrow> byte list" where
  "copy1 offset len =
     [push_bit 5 (of_nat (offset div 256)) OR push_bit 2 (of_nat (len - 4)) OR tagCopy1,
      of_nat (offset mod 256)]"

text \<open>
  Section 4.2: peel a length-64 \<open>COPY_2\<close> while the length is at least 68; then a length-60
  \<open>COPY_2\<close> if the length is above 64; then one \<open>COPY_2\<close> if the remaining length is at least
  12 or the offset at least 2048, otherwise one \<open>COPY_1\<close>.
\<close>

definition copy_tail :: "nat \<Rightarrow> nat \<Rightarrow> byte list" where
  "copy_tail offset len =
     (if len \<ge> 12 \<or> offset \<ge> 2048 then copy2 offset len else copy1 offset len)"

fun emitCopy_spec :: "nat \<Rightarrow> nat \<Rightarrow> byte list" where
  "emitCopy_spec offset len =
     (if len \<ge> 68 then copy2 offset 64 @ emitCopy_spec offset (len - 64)
      else if len > 64 then copy2 offset 60 @ copy_tail offset (len - 60)
      else copy_tail offset len)"

declare emitCopy_spec.simps [simp del]

text \<open>The bytes the \<open>for length >= 68\<close> loop writes, and the length it leaves.\<close>

fun loop_bytes :: "nat \<Rightarrow> nat \<Rightarrow> byte list" where
  "loop_bytes offset len =
     (if len \<ge> 68 then copy2 offset 64 @ loop_bytes offset (len - 64) else [])"

fun loop_rem :: "nat \<Rightarrow> nat" where
  "loop_rem len = (if len \<ge> 68 then loop_rem (len - 64) else len)"

declare loop_bytes.simps [simp del] loop_rem.simps [simp del]

text \<open>\<open>splice xs i bs\<close> is \<open>xs\<close> with \<open>bs\<close> written over it from index \<open>i\<close> on.\<close>

definition splice :: "'a list \<Rightarrow> nat \<Rightarrow> 'a list \<Rightarrow> 'a list" where
  "splice xs i bs = take i xs @ bs @ drop (i + length bs) xs"

section \<open>The reference decoder\<close>

text \<open>
  Modelled from the spec: the decoder is not among the sources. It reads the block format
  of Section 3: an unsigned varint, then tagged chunks. The low two bits of a tag byte are
  the kind, the high six bits the length field. A literal holds \<open>L - 1\<close> in the field when
  that is below 60, otherwise the field is 60 to 63 and the next 1 to 4 little-endian
  bytes hold \<open>L - 1\<close>. \<open>COPY_1\<close> has the length minus 4 in three bits and an 11-bit
  offset, \<open>COPY_2\<close> the length minus 1 in six bits and a 16-bit little-endian offset,
  \<open>COPY_4\<close> the same with a 32-bit offset. A copy of offset 0, or of an offset beyond the
  bytes decoded so far, is an error; a copy reads byte by byte, so it may overlap itself.
\<close>

datatype chunk = Literal "byte list" | Copy nat nat

fun le_nat :: "byte list \<Rightarrow> nat" where
  "le_nat [] = 0"
| "le_nat (b # bs) = unat b + 256 * le_nat bs"

definition parse_chunk :: "byte list \<Rightarrow> (chunk \<times> byte list) option" where
  "parse_chunk bs =
     (case bs of
        [] \<Rightarrow> None
      | tag # rest \<Rightarrow>
          (let t = unat tag; kind = t mod 4; hi = t div 4 in
           if kind = 0 then
             (let extra = (if hi < 60 then 0 else hi - 59);
                  n = (if hi < 60 then hi else le_nat (take extra rest));
                  body = drop extra rest
              in if length rest < extra \<or> length body < n + 1 then None
                 else Some (Literal (take (n + 1) body), drop (n + 1) body))
           else if kind = 1 then
             (if length rest < 1 then None
              else Some (Copy (256 * (hi div 8) + le_nat (take 1 rest)) (4 + hi mod 8),
                         drop 1 rest))
           else if kind = 2 then
             (if length rest < 2 then None
              else Some (Copy (le_nat (take 2 rest)) (1 + hi), drop 2 rest))
           else
             (if length rest < 4 then None
              else Some (Copy (le_nat (take 4 rest)) (1 + hi), drop 4 rest))))"

lemma parse_chunk_shorter: "parse_chunk bs = Some (c, rest) \<Longrightarrow> length rest < length bs"
  by (auto simp: parse_chunk_def Let_def split: list.splits if_splits)

function parse_chunks :: "byte list \<Rightarrow> chunk list option" where
  "parse_chunks bs =
     (if bs = [] then Some []
      else (case parse_chunk bs of
              None \<Rightarrow> None
            | Some (c, rest) \<Rightarrow>
                (case parse_chunks rest of None \<Rightarrow> None | Some cs \<Rightarrow> Some (c # cs))))"
  by pat_completeness auto
termination
  by (relation "measure length") (auto simp: parse_chunk_shorter)

declare parse_chunks.simps [simp del]

fun copy_back :: "byte list \<Rightarrow> nat \<Rightarrow> nat \<Rightarrow> byte list" where
  "copy_back out offset 0 = out"
| "copy_back out offset (Suc n) = copy_back (out @ [out ! (length out - offset)]) offset n"

fun apply_chunks :: "chunk list \<Rightarrow> byte list \<Rightarrow> byte list option" where
  "apply_chunks [] out = Some out"
| "apply_chunks (Literal bs # cs) out = apply_chunks cs (out @ bs)"
| "apply_chunks (Copy offset len # cs) out =
     (if offset = 0 \<or> offset > length out then None
      else apply_chunks cs (copy_back out offset len))"

fun get_uvarint :: "byte list \<Rightarrow> (nat \<times> byte list) option" where
  "get_uvarint [] = None"
| "get_uvarint (b # bs) =
     (if unat b < 128 then Some (unat b, bs)
      else (case get_uvarint bs of
              None \<Rightarrow> None
            | Some (v, rest) \<Rightarrow> Some (unat b mod 128 + 128 * v, rest)))"

definition decode :: "byte list \<Rightarrow> byte list option" where
  "decode bs =
     (case get_uvarint bs of
        None \<Rightarrow> None
      | Some (n, rest) \<Rightarrow>
          (case parse_chunks rest of
             None \<Rightarrow> None
           | Some cs \<Rightarrow>
               (case apply_chunks cs [] of
                  None \<Rightarrow> None
                | Some out \<Rightarrow> if length out = n then Some out else None)))"

text \<open>The number of bytes a chunk decodes to.\<close>

fun chunk_len :: "chunk \<Rightarrow> nat" where
  "chunk_len (Literal bs) = length bs"
| "chunk_len (Copy offset len) = len"

text \<open>
  Copy validity (Sections 3 and 8): from the decoded position \<open>pos\<close> on, every copy has
  an offset in \<open>[1, 65535]\<close> that does not exceed the current decoded position, and a
  length of at least 4 (and at most 64, the tag's limit).
\<close>

fun copies_ok :: "nat \<Rightarrow> chunk list \<Rightarrow> bool" where
  "copies_ok pos [] = True"
| "copies_ok pos (Literal bs # cs) = copies_ok (pos + length bs) cs"
| "copies_ok pos (Copy offset len # cs) =
     (1 \<le> offset \<and> offset \<le> 65535 \<and> offset \<le> pos \<and> 4 \<le> len \<and> len \<le> 64
      \<and> copies_ok (pos + len) cs)"

text \<open>
  The bytes of a chunk as the emitters write it, and the chunks of one call of
  \<open>emitCopy\<close>.
\<close>

fun ser_chunk :: "chunk \<Rightarrow> byte list" where
  "ser_chunk (Literal bs) = literal_header (length bs - 1) @ bs"
| "ser_chunk (Copy offset len) = copy_tail offset len"

definition ser :: "chunk list \<Rightarrow> byte list" where
  "ser cs = concat (map ser_chunk cs)"

fun copy_chunks :: "nat \<Rightarrow> nat \<Rightarrow> chunk list" where
  "copy_chunks offset len =
     (if len \<ge> 68 then Copy offset 64 # copy_chunks offset (len - 64)
      else if len > 64 then [Copy offset 60, Copy offset (len - 60)]
      else [Copy offset len])"

declare copy_chunks.simps [simp del]

fun chunk_wf :: "chunk \<Rightarrow> bool" where
  "chunk_wf (Literal bs) = (1 \<le> length bs \<and> length bs \<le> 65536)"
| "chunk_wf (Copy offset len) = (1 \<le> offset \<and> offset \<le> 65535 \<and> 4 \<le> len \<and> len \<le> 64)"

text \<open>
  \<open>emitted cs xs\<close>: the chunks \<open>cs\<close> are well formed, their copies are valid from position
  0 on, and after any decoded bytes \<open>pre\<close> they decode to \<open>pre\<close> followed by \<open>xs\<close>.
\<close>

definition emitted :: "chunk list \<Rightarrow> byte list \<Rightarrow> bool" where
  "emitted cs xs \<longleftrightarrow>
     list_all chunk_wf cs \<and> copies_ok 0 cs \<and> sum_list (map chunk_len cs) = length xs
     \<and> (\<forall>pre. apply_chunks cs pre = Some (pre @ xs))"

text \<open>
  The invariants of \<open>encodeBlock\<close>. \<open>table_ok table b\<close>: the table has its 16384 entries
  and each is a cursor below \<open>b\<close>. \<open>match4 src a b\<close>: the four bytes at \<open>a\<close> and at \<open>b\<close>
  agree. \<open>out_inv src L dst d n\<close>: \<open>dst\<close> still has its \<open>L\<close> bytes, and its first \<open>d\<close> bytes
  are chunks that decode to the first \<open>n\<close> bytes of \<open>src\<close>.
\<close>

definition table_ok :: "u16 list \<Rightarrow> nat \<Rightarrow> bool" where
  "table_ok table b \<longleftrightarrow> length table = maxTableSize \<and> (\<forall>e \<in> set table. unat e < b)"

definition match4 :: "byte list \<Rightarrow> nat \<Rightarrow> nat \<Rightarrow> bool" where
  "match4 src a b \<longleftrightarrow> (\<forall>k<4. src ! (a + k) = src ! (b + k))"

definition out_inv :: "byte list \<Rightarrow> nat \<Rightarrow> byte list \<Rightarrow> nat \<Rightarrow> nat \<Rightarrow> bool" where
  "out_inv src L dst d n \<longleftrightarrow>
     length dst = L \<and> d \<le> L \<and> n \<le> length src
     \<and> (\<exists>cs. take d dst = ser cs \<and> emitted cs (take n src))"

text \<open>The bytes \<open>binary.PutUvarint\<close> writes for \<open>x\<close>.\<close>

function uvarint :: "nat \<Rightarrow> byte list" where
  "uvarint x = (if x \<ge> 0x80 then (of_nat x OR 0x80) # uvarint (drop_bit 7 x) else [of_nat x])"
  by pat_completeness auto
termination
  by (relation "measure (\<lambda>x. x)") (auto simp: drop_bit_eq_div)

declare uvarint.simps [simp del]

text \<open>
  The eight bytes \<open>fill_header\<close> stores after the magic chunk, and a sink that accepts
  every call.
\<close>

definition chunk_header :: "byte \<Rightarrow> nat \<Rightarrow> u32 \<Rightarrow> byte list" where
  "chunk_header chunkType chunkLen checksum =
     [chunkType, of_nat chunkLen, of_nat (drop_bit 8 chunkLen), of_nat (drop_bit 16 chunkLen),
      ucast checksum, ucast (drop_bit 8 checksum), ucast (drop_bit 16 checksum),
      ucast (drop_bit 24 checksum)]"

definition quiet_sink :: sink where
  "quiet_sink = \<lparr>calls = [], respond = (\<lambda>h p. None)\<rparr>"

definition failing_sink :: sink where
  "failing_sink = \<lparr>calls = [], respond = (\<lambda>h p. Some (SinkError 1))\<rparr>"

text \<open>
  \<open>sink_trace k cs r\<close>: the calls \<open>cs\<close> are the calls of the sink \<open>k\<close> followed by new
  ones; the sink answered every new call but the last with nil and the last with \<open>r\<close>, and
  \<open>r\<close> is nil when there is no new call.
\<close>

definition sink_trace :: "sink \<Rightarrow> byte list list \<Rightarrow> error option \<Rightarrow> bool" where
  "sink_trace k cs r \<longleftrightarrow>
     take (length (calls k)) cs = calls k
     \<and> (let new = drop (length (calls k)) cs
        in (new = [] \<longrightarrow> r = None)
         \<and> list_all
             (\<lambda>i. respond k (calls k @ take i new) (new ! i)
                    = (if Suc i = length new then r else None))
             [0 ..< length new])"

text \<open>
  A block of 34 bytes whose bytes 4 to 7 repeat bytes 0 to 3: the steps of \<open>encodeBlock\<close>
  are run on it below.
\<close>

definition sample_block :: "byte list" where
  "sample_block = [1, 2, 3, 4, 1, 2, 3, 4, 5, 6, 7, 8, 9, 10, 11, 12, 13, 14, 15, 16, 17, 18,
     19, 20, 21, 22, 23, 24, 25, 26, 27, 28, 29, 30]"

section \<open>Writing into a buffer\<close>

lemma length_splice [simp]: "i + length bs \<le> length xs \<Longrightarrow> length (splice xs i bs) = length xs"
  by (simp add: splice_def)

lemma splice_Nil [simp]: "splice xs i [] = xs"
  by (simp add: splice_def)

lemma splice_splice:
  "i + length bs \<le> length xs \<Longrightarrow> j = i + length bs \<Longrightarrow>
   splice (splice xs i bs) j cs = splice xs i (bs @ cs)"
  by (simp add: splice_def add_ac)

lemma take_splice [simp]:
  "i + length bs \<le> length xs \<Longrightarrow> take (i + length bs) (splice xs i bs) = take i xs @ bs"
  by (simp add: splice_def)

lemma take_splice_same [simp]:
  "i \<le> length xs \<Longrightarrow> take i (splice xs i bs) = take i xs"
  by (simp add: splice_def)

lemma drop_splice [simp]:
  "i + length bs \<le> length xs \<Longrightarrow> drop (i + length bs) (splice xs i bs) = drop (i + length bs) xs"
  by (simp add: splice_def)

lemma store_Inr [simp]: "i < length xs \<Longrightarrow> store xs i v = Inr (xs[i := v])"
  by (simp add: store_def)

lemma of_nat_mod_256: "(of_nat (n mod 256) :: byte) = of_nat n"
  by (simp add: word_of_nat_eq_iff take_bit_eq_mod)

lemma word_int_div_256: "(word_of_int (int a div 256) :: byte) = word_of_nat (a div 256)"
  by (metis of_int_of_nat_eq zdiv_int of_nat_numeral)

lemma upd1: "i + 1 \<le> length xs \<Longrightarrow> xs[i := a] = splice xs i [a]"
  by (simp add: splice_def upd_conv_take_nth_drop)

lemma upd2:
  assumes "i + 2 \<le> length xs"
  shows "xs[i := a, Suc i := b] = splice xs i [a, b]"
proof -
  have "xs[i := a, Suc i := b] = (splice xs i [a])[Suc i := b]"
    using assms by (simp only: upd1)
  also have "\<dots> = splice (splice xs i [a]) (Suc i) [b]"
    using assms by (intro upd1) simp
  also have "\<dots> = splice xs i ([a] @ [b])"
    using assms by (intro splice_splice) simp_all
  finally show ?thesis by simp
qed

lemma upd3:
  assumes "i + 3 \<le> length xs"
  shows "xs[i := a, Suc i := b, Suc (Suc i) := c] = splice xs i [a, b, c]"
proof -
  have "xs[i := a, Suc i := b, Suc (Suc i) := c] = (splice xs i [a, b])[Suc (Suc i) := c]"
    using assms by (simp only: upd2)
  also have "\<dots> = splice (splice xs i [a, b]) (Suc (Suc i)) [c]"
    using assms by (intro upd1) simp
  also have "\<dots> = splice xs i ([a, b] @ [c])"
    using assms by (intro splice_splice) simp_all
  finally show ?thesis by simp
qed

lemma length_copy2 [simp]: "length (copy2 offset len) = 3"
  by (simp add: copy2_def)

lemma length_copy1 [simp]: "length (copy1 offset len) = 2"
  by (simp add: copy1_def)

section \<open>The literal emitter\<close>

lemma emitLiteral_fits:
  assumes "1 \<le> length lit" "length lit \<le> 65536"
    and "length (literal_header (length lit - 1)) + length lit \<le> length dst"
  shows "emitLiteral dst lit =
    Inr (literal_header (length lit - 1) @ lit
           @ drop (length (literal_header (length lit - 1)) + length lit) dst,
         length (literal_header (length lit - 1)) + length lit)"
proof -
  obtain n where n: "length lit = Suc n" using assms(1) by (cases lit) auto
  show ?thesis
  proof (cases "n < 60")
    case True
    then obtain a r where d: "dst = a # r" using assms(3) n by (cases dst) (auto simp: literal_header_def)
    show ?thesis using True n assms d
      by (simp add: emitLiteral_def literal_header_def go_copy_def min_def)
  next
    case False
    note nf = this
    show ?thesis
    proof (cases "n < 256")
      case True
      then obtain a b r where d: "dst = a # b # r" using assms(3) n nf
        by (cases dst; cases "tl dst") (auto simp: literal_header_def)
      show ?thesis using True nf n assms d
        by (simp add: emitLiteral_def literal_header_def go_copy_def min_def)
    next
      case False
      then obtain a b c r where d: "dst = a # b # c # r" using assms(3) n nf
        by (cases dst; cases "tl dst"; cases "tl (tl dst)") (auto simp: literal_header_def)
      show ?thesis using False nf n assms d
        by (simp add: emitLiteral_def literal_header_def go_copy_def min_def of_nat_mod_256 drop_bit_eq_div)
    qed
  qed
qed


lemma emitLiteral_splice:
  assumes "1 \<le> length lit" "length lit \<le> 65536"
    and "length (literal_header (length lit - 1)) + length lit \<le> length dst"
  shows "emitLiteral dst lit =
    Inr (splice dst 0 (literal_header (length lit - 1) @ lit),
         length (literal_header (length lit - 1)) + length lit)"
  using emitLiteral_fits[OF assms] by (simp add: splice_def)

text \<open>
  C5. For a literal of 1 to 65536 bytes and a \<open>dst\<close> long enough to hold the encoded
  bytes, \<open>emitLiteral\<close> writes, with \<open>n = len(lit) - 1\<close>, the one-byte header
  \<open>uint8(n)<<2 | tagLiteral\<close> when \<open>n < 60\<close>, the two-byte header \<open>60<<2 | tagLiteral\<close>,
  \<open>uint8(n)\<close> when \<open>60 \<le> n < 256\<close>, otherwise the three-byte header \<open>61<<2 | tagLiteral\<close> and
  \<open>n\<close> as two little-endian bytes (this is \<open>literal_header n\<close>), then the literal
  bytes verbatim, leaves the rest of \<open>dst\<close> as it was, and returns the header length plus
  \<open>len(lit)\<close>.
\<close>

theorem emitLiteral_encoding:
  assumes "1 \<le> length lit" and "length lit \<le> 65536"
    and "length (literal_header (length lit - 1)) + length lit \<le> length dst"
  shows "emitLiteral dst lit =
    Inr (literal_header (length lit - 1) @ lit
           @ drop (length (literal_header (length lit - 1)) + length lit) dst,
         length (literal_header (length lit - 1)) + length lit)"
  using assms by (rule emitLiteral_fits)

theorem emitLiteral_encoding_witness:
  "1 \<le> length [7, 8, 9 :: byte] \<and> length [7, 8, 9 :: byte] \<le> 65536
   \<and> length (literal_header (length [7, 8, 9 :: byte] - 1)) + length [7, 8, 9 :: byte]
        \<le> length [0, 0, 0, 0, 0, 0 :: byte]
   \<and> emitLiteral [0, 0, 0, 0, 0, 0] [7, 8, 9] = Inr ([8, 7, 8, 9, 0, 0], 4)"
  using emitLiteral_encoding[of "[7, 8, 9]" "[0, 0, 0, 0, 0, 0]"]
  by (simp add: literal_header_def tagLiteral_def)

section \<open>The copy emitter\<close>

lemma store_copy2:
  "i + 3 \<le> length dst \<Longrightarrow> 1 \<le> len \<Longrightarrow>
   dst[i := push_bit 2 (word_of_nat (len - 1)) OR tagCopy2, Suc i := of_nat offset, Suc (Suc i) := of_nat (offset div 256)]
    = splice dst i (copy2 offset len)"
  by (simp add: upd3 copy2_def of_nat_mod_256)

lemma emitCopy_loop_fits:
  "i + length (loop_bytes offset len) \<le> length dst \<Longrightarrow>
   emitCopy_loop dst i (int offset) (int len) =
     Inr (splice dst i (loop_bytes offset len),
          i + length (loop_bytes offset len), int (loop_rem len))"
proof (induction offset len arbitrary: dst i rule: loop_bytes.induct)
  case (1 offset len)
  show ?case
  proof (cases "len \<ge> 68")
    case False
    then show ?thesis
      by (subst emitCopy_loop.simps) (simp add: loop_bytes.simps[of offset len] loop_rem.simps[of len])
  next
    case True
    have lb: "loop_bytes offset len = copy2 offset 64 @ loop_bytes offset (len - 64)"
      using True by (subst loop_bytes.simps) simp
    have lr: "loop_rem len = loop_rem (len - 64)"
      using True by (subst loop_rem.simps) simp
    have fit: "i + 3 \<le> length dst" using "1.prems" lb by simp
    define dst3 where "dst3 = splice dst i (copy2 offset 64)"
    have l3: "length dst3 = length dst" using fit by (simp add: dst3_def)
    have st: "dst[i := push_bit 2 63 OR tagCopy2, Suc i := of_nat offset, Suc (Suc i) := of_nat (offset div 256)] = dst3"
      using store_copy2[OF fit, of 64 offset] by (simp add: dst3_def)
    have ih: "emitCopy_loop dst3 (i + 3) (int offset) (int (len - 64)) =
     Inr (splice dst3 (i + 3) (loop_bytes offset (len - 64)),
          i + 3 + length (loop_bytes offset (len - 64)), int (loop_rem (len - 64)))"
      using "1.IH"[OF True, of "i + 3" dst3] "1.prems" lb l3 by simp
    have sp: "splice dst3 (i + 3) (loop_bytes offset (len - 64)) = splice dst i (loop_bytes offset len)"
      unfolding dst3_def lb using fit by (simp add: splice_splice)
    have i64: "int len - 64 = int (len - 64)" using True by simp
    note ih' = ih[folded i64]
    show ?thesis
      using True fit st ih'
      by (subst emitCopy_loop.simps) (simp add: lb lr sp drop_bit_eq_div l3 word_int_div_256)
  qed
qed


lemma loop_rem_bounds: "4 \<le> len \<Longrightarrow> 4 \<le> loop_rem len \<and> loop_rem len < 68 \<and> loop_rem len \<le> len"
proof (induction len rule: loop_rem.induct)
  case (1 len)
  show ?case
  proof (cases "len \<ge> 68")
    case True
    then have "4 \<le> len - 64" by simp
    from "1.IH"[OF True this] have "4 \<le> loop_rem (len - 64) \<and> loop_rem (len - 64) < 68 \<and> loop_rem (len - 64) \<le> len" 
      by arith
    then show ?thesis using True by (subst (1 2 3) loop_rem.simps) simp
  next
    case False
    then show ?thesis using 1 by (subst (1 2 3) loop_rem.simps) auto
  qed
qed

lemma emitCopy_spec_split:
  "emitCopy_spec offset len =
     loop_bytes offset len @
       (if loop_rem len > 64 then copy2 offset 60 @ copy_tail offset (loop_rem len - 60)
        else copy_tail offset (loop_rem len))"
proof (induction offset len rule: loop_bytes.induct)
  case (1 offset len)
  show ?case
  proof (cases "len \<ge> 68")
    case True
    have e: "emitCopy_spec offset len = copy2 offset 64 @ emitCopy_spec offset (len - 64)"
      using True by (subst emitCopy_spec.simps) simp
    have lb: "loop_bytes offset len = copy2 offset 64 @ loop_bytes offset (len - 64)"
      using True by (subst loop_bytes.simps) simp
    have lr: "loop_rem len = loop_rem (len - 64)"
      using True by (subst loop_rem.simps) simp
    show ?thesis using "1.IH"[OF True] by (simp add: e lb lr)
  next
    case False
    have e: "emitCopy_spec offset len =
       (if len > 64 then copy2 offset 60 @ copy_tail offset (len - 60) else copy_tail offset len)"
      using False by (subst emitCopy_spec.simps) simp
    have lb: "loop_bytes offset len = []"
      using False by (subst loop_bytes.simps) simp
    have lr: "loop_rem len = len"
      using False by (subst loop_rem.simps) simp
    show ?thesis by (simp add: e lb lr)
  qed
qed

lemma length_copy_tail: "length (copy_tail offset len) = (if len \<ge> 12 \<or> offset \<ge> 2048 then 3 else 2)"
  by (simp add: copy_tail_def)

lemma store_copy1:
  "i + 2 \<le> length dst \<Longrightarrow> 4 \<le> len \<Longrightarrow>
   dst[i := push_bit 5 (word_of_nat (offset div 256)) OR push_bit 2 (word_of_nat (len - 4)) OR tagCopy1,
       Suc i := of_nat offset]
    = splice dst i (copy1 offset len)"
  by (simp add: upd2 copy1_def of_nat_mod_256)

lemma word_int_diff: "k \<le> n \<Longrightarrow> (word_of_int (int n - int k) :: byte) = word_of_nat (n - k)"
  by (simp add: of_nat_diff)

lemma emitCopy_fits:
  assumes "4 \<le> len" and "length (emitCopy_spec offset len) \<le> length dst"
  shows "emitCopy dst (int offset) (int len) =
     Inr (splice dst 0 (emitCopy_spec offset len), length (emitCopy_spec offset len))"
proof -
  define r where "r = loop_rem len"
  define L where "L = loop_bytes offset len"
  define dst1 where "dst1 = splice dst 0 L"
  have rb: "4 \<le> r" "r < 68" using loop_rem_bounds[OF assms(1)] by (simp_all add: r_def)
  note sp = emitCopy_spec_split[of offset len, folded r_def L_def]
  have fitL: "length L \<le> length dst" using assms(2) sp by simp
  have lp: "emitCopy_loop dst 0 (int offset) (int len) = Inr (dst1, length L, int r)"
    using emitCopy_loop_fits[of 0 offset len dst] fitL by (simp add: L_def r_def dst1_def)
  have l1: "length dst1 = length dst" using fitL by (simp add: dst1_def)
  show ?thesis
  proof (cases "r > 64")
    case True
    have fit: "length L + 3 + length (copy_tail offset (r - 60)) \<le> length dst"
      using assms(2) sp True by simp
    define dst2 where "dst2 = splice dst1 (length L) (copy2 offset 60)"
    have l2: "length dst2 = length dst" using fit l1 by (simp add: dst2_def)
    have st2: "dst1[length L := push_bit 2 59 OR tagCopy2, Suc (length L) := of_nat offset,
                 Suc (Suc (length L)) := of_nat (offset div 256)] = dst2"
      using store_copy2[of "length L" dst1 60 offset] fit l1 by (simp add: dst2_def)
    have d2: "dst2 = splice dst 0 (L @ copy2 offset 60)"
      unfolding dst2_def dst1_def using fitL by (simp add: splice_splice)
    have r60: "int r - 60 = int (r - 60)" using True by simp
    show ?thesis
    proof (cases "r - 60 \<ge> 12 \<or> offset \<ge> 2048")
      case c: True
      have "dst2[length L + 3 := push_bit 2 (word_of_nat (r - 60 - 1)) OR tagCopy2,
                 Suc (length L + 3) := of_nat offset,
                 Suc (Suc (length L + 3)) := of_nat (offset div 256)]
            = splice dst2 (length L + 3) (copy2 offset (r - 60))"
        using store_copy2[of "length L + 3" dst2 "r - 60" offset] fit l2 c True
        by (simp add: copy_tail_def)
      also have "\<dots> = splice dst 0 (emitCopy_spec offset len)"
        unfolding d2 sp using fit c True by (simp add: splice_splice copy_tail_def)
      finally have st3: "dst2[length L + 3 := push_bit 2 (word_of_nat (r - 60 - 1)) OR tagCopy2,
                 Suc (length L + 3) := of_nat offset,
                 Suc (Suc (length L + 3)) := of_nat (offset div 256)] = splice dst 0 (emitCopy_spec offset len)" .
      have w: "(word_of_int (int r - 61) :: byte) = word_of_nat (r - 61)"
        using word_int_diff[of 61 r] True by simp
      have ci: "12 \<le> int r - 60 \<or> 2048 \<le> int offset" using c True by auto
      have ri: "64 < int r" using True by simp
      have fit': "length L + 6 \<le> length dst" using fit c by (simp add: copy_tail_def)
      have le: "length (emitCopy_spec offset len) = length L + 6"
        unfolding sp using c True by (simp add: copy_tail_def)
      show ?thesis
        using lp ri ci fit' l1 l2 st2 st3
        by (simp add: emitCopy_def drop_bit_eq_div word_int_div_256 w le)
    next
      case c: False
      have "dst2[length L + 3 := push_bit 5 (word_of_nat (offset div 256))
                     OR push_bit 2 (word_of_nat (r - 60 - 4)) OR tagCopy1,
                 Suc (length L + 3) := of_nat offset]
            = splice dst2 (length L + 3) (copy1 offset (r - 60))"
        using store_copy1[of "length L + 3" dst2 "r - 60" offset] fit l2 c True
        by (simp add: copy_tail_def)
      also have "\<dots> = splice dst 0 (emitCopy_spec offset len)"
        unfolding d2 sp using fit c True by (simp add: splice_splice copy_tail_def)
      finally have st3: "dst2[length L + 3 := push_bit 5 (word_of_nat (offset div 256))
                     OR push_bit 2 (word_of_nat (r - 60 - 4)) OR tagCopy1,
                 Suc (length L + 3) := of_nat offset] = splice dst 0 (emitCopy_spec offset len)" .
      have w: "(word_of_int (int r - 64) :: byte) = word_of_nat (r - 64)"
        using word_int_diff[of 64 r] True by simp
      have ci: "\<not> (12 \<le> int r - 60 \<or> 2048 \<le> int offset)" using c True by auto
      have ri: "64 < int r" using True by simp
      have le: "length (emitCopy_spec offset len) = length L + 5"
        unfolding sp using c True by (simp add: copy_tail_def)
      have fit': "length L + 5 \<le> length dst" using fit c by (simp add: copy_tail_def)
      show ?thesis
        using lp ri ci fit' l1 l2 st2 st3
        by (simp add: emitCopy_def drop_bit_eq_div word_int_div_256 w le)
    qed
  next
    case False
    have ri: "\<not> 64 < int r" using False by simp
    show ?thesis
    proof (cases "r \<ge> 12 \<or> offset \<ge> 2048")
      case c: True
      have fit: "length L + 3 \<le> length dst" using assms(2) sp False c by (simp add: copy_tail_def)
      have "dst1[length L := push_bit 2 (word_of_nat (r - 1)) OR tagCopy2,
                 Suc (length L) := of_nat offset,
                 Suc (Suc (length L)) := of_nat (offset div 256)]
            = splice dst1 (length L) (copy2 offset r)"
        using store_copy2[of "length L" dst1 r offset] fit l1 rb by simp
      also have "\<dots> = splice dst 0 (emitCopy_spec offset len)"
        unfolding dst1_def sp using fit c False by (simp add: splice_splice copy_tail_def)
      finally have st3: "dst1[length L := push_bit 2 (word_of_nat (r - 1)) OR tagCopy2,
                 Suc (length L) := of_nat offset,
                 Suc (Suc (length L)) := of_nat (offset div 256)] = splice dst 0 (emitCopy_spec offset len)" .
      have w: "(word_of_nat (r - Suc 0) :: byte) = word_of_nat r - 1"
        using rb by (simp add: of_nat_diff)
      have ci: "12 \<le> int r \<or> 2048 \<le> int offset" using c by auto
      have le: "length (emitCopy_spec offset len) = length L + 3"
        unfolding sp using c False by (simp add: copy_tail_def)
      show ?thesis
        using lp ri ci fit l1 st3
        by (simp add: emitCopy_def drop_bit_eq_div word_int_div_256 w le)
    next
      case c: False
      have fit: "length L + 2 \<le> length dst" using assms(2) sp False c by (simp add: copy_tail_def)
      have "dst1[length L := push_bit 5 (word_of_nat (offset div 256))
                     OR push_bit 2 (word_of_nat (r - 4)) OR tagCopy1,
                 Suc (length L) := of_nat offset]
            = splice dst1 (length L) (copy1 offset r)"
        using store_copy1[of "length L" dst1 r offset] fit l1 rb by simp
      also have "\<dots> = splice dst 0 (emitCopy_spec offset len)"
        unfolding dst1_def sp using fit c False by (simp add: splice_splice copy_tail_def)
      finally have st3: "dst1[length L := push_bit 5 (word_of_nat (offset div 256))
                     OR push_bit 2 (word_of_nat (r - 4)) OR tagCopy1,
                 Suc (length L) := of_nat offset] = splice dst 0 (emitCopy_spec offset len)" .
      have w: "(word_of_nat (r - 4) :: byte) = word_of_nat r - 4"
        using rb by (simp add: of_nat_diff)
      have ci: "\<not> (12 \<le> int r \<or> 2048 \<le> int offset)" using c by auto
      have le: "length (emitCopy_spec offset len) = length L + 2"
        unfolding sp using c False by (simp add: copy_tail_def)
      show ?thesis
        using lp ri ci fit l1 st3
        by (simp add: emitCopy_def drop_bit_eq_div word_int_div_256 w le)
    qed
  qed
qed


text \<open>
  C4. For an offset in \<open>[1, 65535]\<close>, a length in \<open>[4, 65535]\<close> and a \<open>dst\<close> long enough,
  \<open>emitCopy\<close> writes exactly the bytes of \<open>emitCopy_spec\<close>: a length-64 \<open>COPY_2\<close> (tag
  \<open>63<<2 | tagCopy2\<close>) while the remaining length is at least 68, then one length-60
  \<open>COPY_2\<close> if the remaining length is above 64, then a single \<open>COPY_2\<close> when the
  remaining length is at least 12 or the offset at least 2048 and a single \<open>COPY_1\<close>
  otherwise; it leaves the rest of \<open>dst\<close> as it was and returns the number of bytes
  written.
\<close>

theorem emitCopy_encoding:
  assumes "1 \<le> offset" and "offset \<le> 65535" and "4 \<le> len" and "len \<le> 65535"
    and "length (emitCopy_spec offset len) \<le> length dst"
  shows "emitCopy dst (int offset) (int len) =
    Inr (emitCopy_spec offset len @ drop (length (emitCopy_spec offset len)) dst,
         length (emitCopy_spec offset len))"
  using emitCopy_fits[OF assms(3) assms(5)] by (simp add: splice_def)

theorem emitCopy_encoding_witness:
  "(1 :: nat) \<le> 5 \<and> (5 :: nat) \<le> 65535 \<and> (4 :: nat) \<le> 70 \<and> (70 :: nat) \<le> 65535
   \<and> length (emitCopy_spec 5 70) \<le> length [0, 0, 0, 0, 0, 0 :: byte]
   \<and> emitCopy [0, 0, 0, 0, 0, 0] 5 70 = Inr ([254, 5, 0, 9, 5, 0], 5)"
  using emitCopy_encoding[of 5 70 "[0, 0, 0, 0, 0, 0]"]
  by (simp add: emitCopy_spec.simps copy_tail_def copy2_def copy1_def tagCopy1_def tagCopy2_def)

section \<open>The hash table\<close>

lemma unat_drop_bit_bound:
  fixes x :: u32
  assumes "k \<le> 32"
  shows "unat (drop_bit (32 - k) x) < 2 ^ k"
proof -
  have "unat x < 2 ^ 32" using unsigned_less[of x] by simp
  also have "(2::nat) ^ 32 = 2 ^ k * 2 ^ (32 - k)" using assms by (simp flip: power_add)
  finally have "unat x div 2 ^ (32 - k) < 2 ^ k"
    by (simp add: less_mult_imp_div_less)
  moreover have "unat (drop_bit (32 - k) x) = unat x div 2 ^ (32 - k)"
    unfolding unat_drop_bit_eq by (rule drop_bit_eq_div)
  ultimately show ?thesis by simp
qed

lemma hash_bound: "unat shift = 32 - k \<Longrightarrow> k \<le> 32 \<Longrightarrow> unat (hash u shift) < 2 ^ k"
  using unat_drop_bit_bound[of k "u * 0x1e35a7bd"]
  by (simp add: hash_def)

lemma index_bound: "unat (h AND tableMask) < maxTableSize"
proof -
  have "tableMask = mask 14" by (simp add: tableMask_def maxTableSize_def mask_eq_decr_exp)
  then have "h AND tableMask = take_bit 14 h" by (simp add: take_bit_eq_mask)
  then have "unat (h AND tableMask) = take_bit 14 (unat h)" by (simp only: unsigned_take_bit_eq)
  then show ?thesis by (simp add: maxTableSize_def take_bit_eq_mod)
qed



lemma tableSizeLoop_cases:
  "tableSizeLoop 24 256 n =
     Some (if n \<le> 256 then (24, 256) else if n \<le> 512 then (23, 512)
           else if n \<le> 1024 then (22, 1024) else if n \<le> 2048 then (21, 2048)
           else if n \<le> 4096 then (20, 4096) else if n \<le> 8192 then (19, 8192)
           else (18, 16384))"
  by (simp add: tableSizeLoop.simps maxTableSize_def)

text \<open>
  C6, as the code has it. The table size \<open>encodeBlock\<close> computes is \<open>2 ^ k\<close> with
  \<open>8 \<le> k \<le> 14\<close>, the least such power of two that is not below \<open>len(src)\<close> (and
  \<open>2 ^ 14\<close> when there is none); \<open>shift\<close> is \<open>32 - k\<close>, and every hash
  \<open>(u * 0x1e35a7bd) >> shift\<close> is below the table size.
\<close>

theorem tableSize_least_power:
  "\<exists>k. 8 \<le> k \<and> k \<le> 14
     \<and> tableSizeLoop (32 - 8) (2 ^ 8) n = Some (of_nat (32 - k), 2 ^ k)
     \<and> (n \<le> 2 ^ k \<or> k = 14) \<and> (2 ^ (k - 1) < n \<or> k = 8)
     \<and> (\<forall>u. hash u (of_nat (32 - k)) = drop_bit (32 - k) (u * 0x1e35a7bd)
              \<and> unat (hash u (of_nat (32 - k))) < 2 ^ k)"
proof -
  have h: "unat (drop_bit (32 - k) (u * 0x1e35a7bd :: u32)) < 2 ^ k" if "k \<le> 32" for u k
    using that by (rule unat_drop_bit_bound)
  consider "n \<le> 256" | "256 < n" "n \<le> 512" | "512 < n" "n \<le> 1024"
    | "1024 < n" "n \<le> 2048" | "2048 < n" "n \<le> 4096" | "4096 < n" "n \<le> 8192"
    | "8192 < n"
    by linarith
  then show ?thesis
  proof cases
    case 1
    then show ?thesis
      using h[of 8] by (intro exI[of _ 8]) (simp add: tableSizeLoop_cases hash_def)
  next
    case 2
    then show ?thesis
      using h[of 9] by (intro exI[of _ 9]) (simp add: tableSizeLoop_cases hash_def)
  next
    case 3
    then show ?thesis
      using h[of 10] by (intro exI[of _ 10]) (simp add: tableSizeLoop_cases hash_def)
  next
    case 4
    then show ?thesis
      using h[of 11] by (intro exI[of _ 11]) (simp add: tableSizeLoop_cases hash_def)
  next
    case 5
    then show ?thesis
      using h[of 12] by (intro exI[of _ 12]) (simp add: tableSizeLoop_cases hash_def)
  next
    case 6
    then show ?thesis
      using h[of 13] by (intro exI[of _ 13]) (simp add: tableSizeLoop_cases hash_def)
  next
    case 7
    then show ?thesis
      using h[of 14] by (intro exI[of _ 14]) (simp add: tableSizeLoop_cases hash_def)
  qed
qed

text \<open>
  C6 as stated fails for a block of 300 bytes: the largest power of two in
  \<open>[256, 16384]\<close> that does not exceed 300 is 256, and the code takes 512.
\<close>

theorem tableSize_counterexample:
  "tableSizeLoop (32 - 8) (2 ^ 8) 300 = Some (23, 512) \<and> (17 :: nat) \<le> 300 \<and> (300 :: nat) \<le> 65536
   \<and> (256 :: nat) \<le> 300 \<and> (300 :: nat) < 512"
  by (simp add: tableSizeLoop_cases)

section \<open>Bytes and words\<close>

lemma nat_or_low: "k < 2 ^ j \<Longrightarrow> push_bit j (n::nat) OR k = push_bit j n + k"
proof (rule disjunctive_add[symmetric])
  fix m
  assume k: "k < 2 ^ j"
  show "\<not> bit (push_bit j n) m \<or> \<not> bit k m"
  proof (cases "m < j")
    case True
    then show ?thesis by (simp add: bit_push_bit_iff)
  next
    case False
    then have "2 ^ j \<le> (2::nat) ^ m" by simp
    with k have "k < 2 ^ m" by linarith
    then have "\<not> bit k m" by (simp add: bit_iff_odd)
    then show ?thesis by simp
  qed
qed

lemma unat_of_nat_byte: "n < 256 \<Longrightarrow> unat (of_nat n :: 8 word) = n"
  by (simp add: unat_of_nat)

lemma tag_unat:
  assumes "n < 64" "k < 4"
  shows "unat (push_bit 2 (of_nat n :: 8 word) OR of_nat k) = 4 * n + k"
proof -
  have "push_bit 2 (of_nat n :: 8 word) OR of_nat k = of_nat (push_bit 2 n OR k)"
    by (simp add: push_bit_of_nat of_nat_or_eq)
  also have "push_bit 2 n OR k = 4 * n + k"
    using nat_or_low[of k 2 n] assms by (simp add: push_bit_eq_mult)
  finally have e: "push_bit 2 (of_nat n :: 8 word) OR of_nat k = of_nat (4 * n + k)" .
  have "unat (of_nat (4 * n + k) :: 8 word) = 4 * n + k"
    using assms by (intro unat_of_nat_byte) simp
  then show ?thesis by (simp only: e)
qed

lemma tag1_unat:
  assumes "a < 8" "n < 8"
  shows "unat (push_bit 5 (of_nat a :: 8 word) OR push_bit 2 (of_nat n) OR 1) = 32 * a + 4 * n + 1"
proof -
  have "push_bit 5 (of_nat a :: 8 word) OR push_bit 2 (of_nat n) OR 1 = of_nat (push_bit 5 a OR (push_bit 2 n OR 1))"
    by (simp add: push_bit_of_nat of_nat_or_eq or.assoc)
  also have "push_bit 2 n OR 1 = 4 * n + 1"
    using nat_or_low[of 1 2 n] by (simp add: push_bit_eq_mult)
  also have "push_bit 5 a OR (4 * n + 1) = 32 * a + (4 * n + 1)"
    using nat_or_low[of "4 * n + 1" 5 a] assms by (simp add: push_bit_eq_mult)
  finally have e: "push_bit 5 (of_nat a :: 8 word) OR push_bit 2 (of_nat n) OR 1 = of_nat (32 * a + (4 * n + 1))" .
  have "unat (of_nat (32 * a + (4 * n + 1)) :: 8 word) = 32 * a + (4 * n + 1)"
    using assms by (intro unat_of_nat_byte) simp
  then show ?thesis by (simp only: e add.assoc)
qed

lemma unat_of_nat_u16: "n < 65536 \<Longrightarrow> unat (of_nat n :: 16 word) = n"
  by (simp add: unat_of_nat)

lemma nat_or_high: "k < 2 ^ j \<Longrightarrow> k OR push_bit j (n::nat) = k + push_bit j n"
  using nat_or_low[of k j n] by (simp add: or.commute add.commute)

lemma nat_le32:
  fixes x0 x1 x2 x3 :: nat
  assumes "x0 < 256" "x1 < 256" "x2 < 256"
  shows "x0 OR push_bit 8 x1 OR push_bit 16 x2 OR push_bit 24 x3
     = x0 + 256 * x1 + 65536 * x2 + 16777216 * x3"
proof -
  have "x0 OR push_bit 8 x1 OR push_bit 16 x2 OR push_bit 24 x3
      = ((x0 OR push_bit 8 x1) OR push_bit 16 x2) OR push_bit 24 x3"
    by (simp only: or.assoc)
  also have "x0 OR push_bit 8 x1 = x0 + 256 * x1"
    using nat_or_high[of x0 8 x1] assms by (simp add: push_bit_eq_mult)
  also have "(x0 + 256 * x1) OR push_bit 16 x2 = x0 + 256 * x1 + 65536 * x2"
    using nat_or_high[of "x0 + 256 * x1" 16 x2] assms by (simp add: push_bit_eq_mult)
  also have "(x0 + 256 * x1 + 65536 * x2) OR push_bit 24 x3
      = x0 + 256 * x1 + 65536 * x2 + 16777216 * x3"
    using nat_or_high[of "x0 + 256 * x1 + 65536 * x2" 24 x3] assms by (simp add: push_bit_eq_mult)
  finally show ?thesis .
qed

lemma unat_of_nat_u32: "n < 4294967296 \<Longrightarrow> unat (of_nat n :: 32 word) = n"
  by (simp add: unat_of_nat)

lemma le32_unat:
  fixes b0 b1 b2 b3 :: "8 word"
  shows "unat (ucast b0 OR push_bit 8 (ucast b1) OR push_bit 16 (ucast b2) OR push_bit 24 (ucast b3) :: 32 word)
     = unat b0 + 256 * unat b1 + 65536 * unat b2 + 16777216 * unat b3"
proof -
  have u: "unat b0 < 256" "unat b1 < 256" "unat b2 < 256" "unat b3 < 256"
    using unsigned_less[of b0] unsigned_less[of b1] unsigned_less[of b2] unsigned_less[of b3] by simp_all
  have c: "(ucast b :: 32 word) = of_nat (unat b)" for b :: "8 word"
    by simp
  have "(ucast b0 OR push_bit 8 (ucast b1) OR push_bit 16 (ucast b2) OR push_bit 24 (ucast b3) :: 32 word)
      = of_nat (unat b0 OR push_bit 8 (unat b1) OR push_bit 16 (unat b2) OR push_bit 24 (unat b3))"
    unfolding c by (simp only: push_bit_of_nat of_nat_or_eq)
  also have "\<dots> = of_nat (unat b0 + 256 * unat b1 + 65536 * unat b2 + 16777216 * unat b3)"
    using u by (simp only: nat_le32)
  finally have e: "(ucast b0 OR push_bit 8 (ucast b1) OR push_bit 16 (ucast b2) OR push_bit 24 (ucast b3) :: 32 word)
      = of_nat (unat b0 + 256 * unat b1 + 65536 * unat b2 + 16777216 * unat b3)" .
  have "unat (of_nat (unat b0 + 256 * unat b1 + 65536 * unat b2 + 16777216 * unat b3) :: 32 word)
     = unat b0 + 256 * unat b1 + 65536 * unat b2 + 16777216 * unat b3"
    using u by (intro unat_of_nat_u32) simp
  then show ?thesis by (simp only: e)
qed

lemma base256_step:
  fixes a0 b0 A B :: nat
  assumes "a0 < 256" "b0 < 256" and e: "a0 + 256 * A = b0 + 256 * B"
  shows "a0 = b0 \<and> A = B"
proof -
  have "(a0 + 256 * A) mod 256 = a0" "(a0 + 256 * A) div 256 = A"
    using assms(1) by simp_all
  moreover have "(b0 + 256 * B) mod 256 = b0" "(b0 + 256 * B) div 256 = B"
    using assms(2) by simp_all
  ultimately show ?thesis using e by simp
qed

lemma base256_inj:
  fixes a0 a1 a2 a3 b0 b1 b2 b3 :: nat
  assumes "a0 < 256" "a1 < 256" "a2 < 256" "a3 < 256" "b0 < 256" "b1 < 256" "b2 < 256" "b3 < 256"
    and e: "a0 + 256 * a1 + 65536 * a2 + 16777216 * a3 = b0 + 256 * b1 + 65536 * b2 + 16777216 * b3"
  shows "a0 = b0 \<and> a1 = b1 \<and> a2 = b2 \<and> a3 = b3"
proof -
  have "a0 + 256 * (a1 + 256 * (a2 + 256 * a3)) = b0 + 256 * (b1 + 256 * (b2 + 256 * b3))"
    using e by simp
  from base256_step[OF assms(1) assms(5) this]
  have 0: "a0 = b0" and "a1 + 256 * (a2 + 256 * a3) = b1 + 256 * (b2 + 256 * b3)" by simp_all
  from base256_step[OF assms(2) assms(6) this(2)]
  have 1: "a1 = b1" and "a2 + 256 * a3 = b2 + 256 * b3" by simp_all
  from base256_step[OF assms(3) assms(7) this(2)]
  have 2: "a2 = b2" and "a3 = b3" by simp_all
  with 0 1 show ?thesis by simp
qed

lemma le32_inj:
  fixes a0 a1 a2 a3 b0 b1 b2 b3 :: "8 word"
  assumes "(ucast a0 OR push_bit 8 (ucast a1) OR push_bit 16 (ucast a2) OR push_bit 24 (ucast a3) :: 32 word)
         = ucast b0 OR push_bit 8 (ucast b1) OR push_bit 16 (ucast b2) OR push_bit 24 (ucast b3)"
  shows "a0 = b0 \<and> a1 = b1 \<and> a2 = b2 \<and> a3 = b3"
proof -
  have u: "unat x < 256" for x :: "8 word" using unsigned_less[of x] by simp
  from assms have "unat a0 + 256 * unat a1 + 65536 * unat a2 + 16777216 * unat a3
      = unat b0 + 256 * unat b1 + 65536 * unat b2 + 16777216 * unat b3"
    by (simp only: le32_unat[symmetric])
  from base256_inj[OF u u u u u u u u this] show ?thesis by (simp add: word_unat_eq_iff)
qed


lemma unat_of_nat_u64: "n < 18446744073709551616 \<Longrightarrow> unat (of_nat n :: 64 word) = n"
  by (simp add: unat_of_nat)

lemma nat_le64:
  fixes x0 x1 x2 x3 x4 x5 x6 x7 :: nat
  assumes "x0 < 256" "x1 < 256" "x2 < 256" "x3 < 256" "x4 < 256" "x5 < 256" "x6 < 256"
  shows "x0 OR push_bit 8 x1 OR push_bit 16 x2 OR push_bit 24 x3
           OR push_bit 32 x4 OR push_bit 40 x5 OR push_bit 48 x6 OR push_bit 56 x7
     = x0 + 256 * x1 + 65536 * x2 + 16777216 * x3 + 4294967296 * x4 + 1099511627776 * x5
       + 281474976710656 * x6 + 72057594037927936 * x7"
proof -
  have "x0 OR push_bit 8 x1 OR push_bit 16 x2 OR push_bit 24 x3
           OR push_bit 32 x4 OR push_bit 40 x5 OR push_bit 48 x6 OR push_bit 56 x7
      = (((((((x0 OR push_bit 8 x1) OR push_bit 16 x2) OR push_bit 24 x3)
           OR push_bit 32 x4) OR push_bit 40 x5) OR push_bit 48 x6) OR push_bit 56 x7)"
    by (simp only: or.assoc)
  also have "x0 OR push_bit 8 x1 = x0 + 256 * x1"
    using nat_or_high[of x0 8 x1] assms by (simp add: push_bit_eq_mult)
  also have "(x0 + 256 * x1) OR push_bit 16 x2 = x0 + 256 * x1 + 65536 * x2"
    using nat_or_high[of "x0 + 256 * x1" 16 x2] assms by (simp add: push_bit_eq_mult)
  also have "(x0 + 256 * x1 + 65536 * x2) OR push_bit 24 x3
      = x0 + 256 * x1 + 65536 * x2 + 16777216 * x3"
    using nat_or_high[of "x0 + 256 * x1 + 65536 * x2" 24 x3] assms by (simp add: push_bit_eq_mult)
  also have "(x0 + 256 * x1 + 65536 * x2 + 16777216 * x3) OR push_bit 32 x4
      = x0 + 256 * x1 + 65536 * x2 + 16777216 * x3 + 4294967296 * x4"
    using nat_or_high[of "x0 + 256 * x1 + 65536 * x2 + 16777216 * x3" 32 x4] assms
    by (simp add: push_bit_eq_mult)
  also have "(x0 + 256 * x1 + 65536 * x2 + 16777216 * x3 + 4294967296 * x4) OR push_bit 40 x5
      = x0 + 256 * x1 + 65536 * x2 + 16777216 * x3 + 4294967296 * x4 + 1099511627776 * x5"
    using nat_or_high[of "x0 + 256 * x1 + 65536 * x2 + 16777216 * x3 + 4294967296 * x4" 40 x5] assms
    by (simp add: push_bit_eq_mult)
  also have "(x0 + 256 * x1 + 65536 * x2 + 16777216 * x3 + 4294967296 * x4 + 1099511627776 * x5)
       OR push_bit 48 x6
      = x0 + 256 * x1 + 65536 * x2 + 16777216 * x3 + 4294967296 * x4 + 1099511627776 * x5
        + 281474976710656 * x6"
    using nat_or_high[of "x0 + 256 * x1 + 65536 * x2 + 16777216 * x3 + 4294967296 * x4
        + 1099511627776 * x5" 48 x6] assms
    by (simp add: push_bit_eq_mult)
  also have "(x0 + 256 * x1 + 65536 * x2 + 16777216 * x3 + 4294967296 * x4 + 1099511627776 * x5
        + 281474976710656 * x6) OR push_bit 56 x7
      = x0 + 256 * x1 + 65536 * x2 + 16777216 * x3 + 4294967296 * x4 + 1099511627776 * x5
        + 281474976710656 * x6 + 72057594037927936 * x7"
    using nat_or_high[of "x0 + 256 * x1 + 65536 * x2 + 16777216 * x3 + 4294967296 * x4
        + 1099511627776 * x5 + 281474976710656 * x6" 56 x7] assms
    by (simp add: push_bit_eq_mult)
  finally show ?thesis .
qed

lemma le64_unat:
  fixes b0 b1 b2 b3 b4 b5 b6 b7 :: "8 word"
  shows "unat (ucast b0 OR push_bit 8 (ucast b1) OR push_bit 16 (ucast b2) OR push_bit 24 (ucast b3)
               OR push_bit 32 (ucast b4) OR push_bit 40 (ucast b5) OR push_bit 48 (ucast b6)
               OR push_bit 56 (ucast b7) :: 64 word)
     = unat b0 + 256 * unat b1 + 65536 * unat b2 + 16777216 * unat b3 + 4294967296 * unat b4
       + 1099511627776 * unat b5 + 281474976710656 * unat b6 + 72057594037927936 * unat b7"
proof -
  have u: "unat x < 256" for x :: "8 word" using unsigned_less[of x] by simp
  have c: "(ucast b :: 64 word) = of_nat (unat b)" for b :: "8 word"
    by simp
  have "(ucast b0 OR push_bit 8 (ucast b1) OR push_bit 16 (ucast b2) OR push_bit 24 (ucast b3)
               OR push_bit 32 (ucast b4) OR push_bit 40 (ucast b5) OR push_bit 48 (ucast b6)
               OR push_bit 56 (ucast b7) :: 64 word)
      = of_nat (unat b0 OR push_bit 8 (unat b1) OR push_bit 16 (unat b2) OR push_bit 24 (unat b3)
           OR push_bit 32 (unat b4) OR push_bit 40 (unat b5) OR push_bit 48 (unat b6)
           OR push_bit 56 (unat b7))"
    unfolding c by (simp only: push_bit_of_nat of_nat_or_eq)
  also have "\<dots> = of_nat (unat b0 + 256 * unat b1 + 65536 * unat b2 + 16777216 * unat b3
       + 4294967296 * unat b4 + 1099511627776 * unat b5 + 281474976710656 * unat b6
       + 72057594037927936 * unat b7)"
    using u by (simp only: nat_le64)
  finally have e: "(ucast b0 OR push_bit 8 (ucast b1) OR push_bit 16 (ucast b2) OR push_bit 24 (ucast b3)
               OR push_bit 32 (ucast b4) OR push_bit 40 (ucast b5) OR push_bit 48 (ucast b6)
               OR push_bit 56 (ucast b7) :: 64 word)
      = of_nat (unat b0 + 256 * unat b1 + 65536 * unat b2 + 16777216 * unat b3
       + 4294967296 * unat b4 + 1099511627776 * unat b5 + 281474976710656 * unat b6
       + 72057594037927936 * unat b7)" .
  have "unat (of_nat (unat b0 + 256 * unat b1 + 65536 * unat b2 + 16777216 * unat b3
       + 4294967296 * unat b4 + 1099511627776 * unat b5 + 281474976710656 * unat b6
       + 72057594037927936 * unat b7) :: 64 word)
     = unat b0 + 256 * unat b1 + 65536 * unat b2 + 16777216 * unat b3
       + 4294967296 * unat b4 + 1099511627776 * unat b5 + 281474976710656 * unat b6
       + 72057594037927936 * unat b7"
    using u[of b0] u[of b1] u[of b2] u[of b3] u[of b4] u[of b5] u[of b6] u[of b7]
    by (intro unat_of_nat_u64) simp
  then show ?thesis by (simp only: e)
qed

text \<open>uint32(x >> 8) and uint32(x >> 16) of a 64-bit load are the 32-bit loads one and two bytes on.\<close>

lemma ucast_drop_unat:
  fixes x :: "64 word"
  shows "unat (ucast (drop_bit k x) :: 32 word) = (unat x div 2 ^ k) mod 4294967296"
proof -
  have "unat (ucast (drop_bit k x) :: 32 word) = take_bit 32 (drop_bit k (unat x))"
    by (simp only: unsigned_ucast_eq unat_drop_bit_eq) simp
  then show ?thesis by (simp add: take_bit_eq_mod drop_bit_eq_div)
qed


lemma base256_shift:
  fixes a0 a1 a2 a3 a4 a5 a6 a7 :: nat
  assumes "a0 < 256" "a1 < 256" "a2 < 256" "a3 < 256" "a4 < 256"
  shows "(a0 + 256 * a1 + 65536 * a2 + 16777216 * a3 + 4294967296 * a4 + 1099511627776 * a5
       + 281474976710656 * a6 + 72057594037927936 * a7) div 2 ^ 8 mod 4294967296
     = a1 + 256 * a2 + 65536 * a3 + 16777216 * a4"
proof -
  define P where "P = a1 + 256 * a2 + 65536 * a3 + 16777216 * a4"
  define Q where "Q = a5 + 256 * a6 + 65536 * a7"
  have p: "P < 4294967296" using assms by (simp add: P_def)
  have "a0 + 256 * a1 + 65536 * a2 + 16777216 * a3 + 4294967296 * a4 + 1099511627776 * a5
       + 281474976710656 * a6 + 72057594037927936 * a7 = a0 + 256 * (P + 4294967296 * Q)"
    by (simp add: P_def Q_def)
  moreover have "(a0 + 256 * (P + 4294967296 * Q)) div 2 ^ 8 = P + 4294967296 * Q"
    using assms(1) by simp
  moreover have "(P + 4294967296 * Q) mod 4294967296 = P"
    using p by simp
  ultimately show ?thesis by (simp only: P_def)
qed

lemma le64_shift8:
  fixes b0 b1 b2 b3 b4 b5 b6 b7 :: "8 word"
  shows "(ucast (drop_bit 8 (ucast b0 OR push_bit 8 (ucast b1) OR push_bit 16 (ucast b2)
               OR push_bit 24 (ucast b3) OR push_bit 32 (ucast b4) OR push_bit 40 (ucast b5)
               OR push_bit 48 (ucast b6) OR push_bit 56 (ucast b7) :: 64 word)) :: 32 word)
     = ucast b1 OR push_bit 8 (ucast b2) OR push_bit 16 (ucast b3) OR push_bit 24 (ucast b4)"
proof -
  have u: "unat x < 256" for x :: "8 word" using unsigned_less[of x] by simp
  show ?thesis
    unfolding word_unat_eq_iff ucast_drop_unat le64_unat le32_unat
    by (rule base256_shift) (rule u)+
qed

section \<open>Parsing what the emitters write\<close>

lemma le_nat_1: "n < 256 \<Longrightarrow> le_nat [of_nat n] = n"
  by (simp add: unat_of_nat_byte)

lemma le_nat_2: "n < 65536 \<Longrightarrow> le_nat [of_nat (n mod 256), of_nat (n div 256)] = n"
  by (simp add: unat_of_nat_byte)

lemma tag0_unat: "n < 64 \<Longrightarrow> unat (push_bit 2 (of_nat n :: byte) OR tagLiteral) = 4 * n"
  using tag_unat[of n 0] by (simp add: tagLiteral_def)

lemma tag2_unat: "n < 64 \<Longrightarrow> unat (push_bit 2 (of_nat n :: byte) OR tagCopy2) = 4 * n + 2"
  using tag_unat[of n 2] by (simp add: tagCopy2_def)

lemma tag1_unat': "a < 8 \<Longrightarrow> n < 8 \<Longrightarrow>
  unat (push_bit 5 (of_nat a :: byte) OR push_bit 2 (of_nat n) OR tagCopy1) = 32 * a + 4 * n + 1"
  using tag1_unat[of a n] by (simp add: tagCopy1_def)

lemma parse_literal:
  assumes "1 \<le> length bs" "length bs \<le> 65536"
  shows "parse_chunk (literal_header (length bs - 1) @ bs @ rest) = Some (Literal bs, rest)"
proof -
  obtain n where n: "length bs = Suc n" using assms(1) by (cases bs) auto
  have nb: "n < 65536" using assms(2) n by simp
  consider "n < 60" | "60 \<le> n" "n < 256" | "256 \<le> n" by linarith
  then show ?thesis
  proof cases
    case 1
    then have "unat (push_bit 2 (of_nat n :: byte) OR tagLiteral) = 4 * n"
      by (intro tag0_unat) simp
    then show ?thesis using 1 n
      by (simp add: literal_header_def parse_chunk_def Let_def)
  next
    case 2
    have t: "unat (240 OR tagLiteral :: byte) = 240" by (simp add: tagLiteral_def)
    show ?thesis using 2 n le_nat_1[of n]
      by (simp add: literal_header_def parse_chunk_def Let_def t)
  next
    case 3
    have t: "unat (244 OR tagLiteral :: byte) = 244" by (simp add: tagLiteral_def)
    have d: "n div 256 < 256" using nb by simp
    show ?thesis using 3 n le_nat_2[OF nb]
      by (simp add: literal_header_def parse_chunk_def Let_def t numeral_2_eq_2)
  qed
qed

lemma parse_copy2:
  assumes "1 \<le> len" "len \<le> 64" "offset \<le> 65535"
  shows "parse_chunk (copy2 offset len @ rest) = Some (Copy offset len, rest)"
proof -
  have "unat (push_bit 2 (of_nat (len - 1) :: byte) OR tagCopy2) = 4 * (len - 1) + 2"
    using assms by (intro tag2_unat) simp
  moreover have "(4 * m + 2) mod 4 = 2" "(4 * m + 2) div 4 = m" for m :: nat
    by presburger+
  ultimately show ?thesis using assms le_nat_2[of offset]
    by (simp add: copy2_def parse_chunk_def Let_def numeral_2_eq_2)
qed

lemma parse_copy1:
  assumes "4 \<le> len" "len < 12" "offset < 2048"
  shows "parse_chunk (copy1 offset len @ rest) = Some (Copy offset len, rest)"
proof -
  define a where "a = offset div 256"
  define m where "m = len - 4"
  have a: "a < 8" using assms by (simp add: a_def)
  have m: "m < 8" "len = 4 + m" using assms by (simp_all add: m_def)
  define t where "t = 1 + 4 * (m + 8 * a)"
  have tg: "unat (push_bit 5 (of_nat a :: byte) OR push_bit 2 (of_nat m) OR tagCopy1) = t"
    using tag1_unat'[OF a m(1)] by (simp add: t_def)
  have k: "t mod 4 = 1" "t div 4 = m + 8 * a"
    unfolding t_def by presburger+
  have k2: "(m + 8 * a) div 8 = a" "(m + 8 * a) mod 8 = m"
    using m(1) by presburger+
  have lo: "unat (of_nat (offset mod 256) :: byte) = offset mod 256"
    by (intro unat_of_nat_byte) simp
  have off: "256 * a + offset mod 256 = offset" by (simp add: a_def)
  show ?thesis
    unfolding copy1_def a_def[symmetric] m_def[symmetric]
    using m(1) by (simp add: parse_chunk_def Let_def tg k k2 lo off m(2))
qed

lemma parse_ser_chunk:
  "chunk_wf c \<Longrightarrow> parse_chunk (ser_chunk c @ rest) = Some (c, rest)"
proof (cases c)
  case (Literal bs)
  assume "chunk_wf c"
  then show ?thesis using Literal parse_literal[of bs rest] by simp
next
  case (Copy offset len)
  assume "chunk_wf c"
  then show ?thesis using Copy parse_copy2[of len offset rest] parse_copy1[of len offset rest]
    by (auto simp: copy_tail_def)
qed

lemma ser_chunk_nonempty: "ser_chunk c \<noteq> []"
  by (cases c) (auto simp: literal_header_def copy_tail_def copy2_def copy1_def)

lemma parse_ser: "list_all chunk_wf cs \<Longrightarrow> parse_chunks (ser cs) = Some cs"
proof (induction cs)
  case Nil
  then show ?case by (simp add: ser_def parse_chunks.simps)
next
  case (Cons c cs)
  have "ser (c # cs) = ser_chunk c @ ser cs" by (simp add: ser_def)
  moreover have "ser_chunk c @ ser cs \<noteq> []" using ser_chunk_nonempty by simp
  moreover have "parse_chunk (ser_chunk c @ ser cs) = Some (c, ser cs)"
    using Cons.prems by (intro parse_ser_chunk) simp
  ultimately show ?case using Cons
    by (subst parse_chunks.simps) simp
qed

lemma ser_append: "ser (cs @ ds) = ser cs @ ser ds"
  by (simp add: ser_def)

section \<open>Decoding what the emitters write\<close>

lemma apply_chunks_append:
  "apply_chunks (cs @ ds) out =
     (case apply_chunks cs out of None \<Rightarrow> None | Some out' \<Rightarrow> apply_chunks ds out')"
proof (induction cs arbitrary: out)
  case Nil
  then show ?case by simp
next
  case (Cons c cs)
  then show ?case by (cases c) auto
qed

lemma length_copy_back [simp]: "length (copy_back out offset n) = length out + n"
  by (induction n arbitrary: out) auto

lemma copy_back_add:
  "copy_back out offset (a + b) = copy_back (copy_back out offset a) offset b"
  by (induction a arbitrary: out) auto

lemma copy_back_periodic:
  assumes "1 \<le> offset" "offset \<le> m" "m + n \<le> length src"
    and "\<forall>k. m \<le> k \<and> k < m + n \<longrightarrow> src ! k = src ! (k - offset)"
  shows "copy_back (pre @ take m src) offset n = pre @ take (m + n) src"
  using assms
proof (induction n arbitrary: m)
  case 0
  then show ?case by simp
next
  case (Suc n)
  note o = Suc.prems(1,2)
  have lm: "m < length src" using Suc.prems(3) by simp
  have sm: "src ! m = src ! (m - offset)" using Suc.prems(4) by simp
  have idx: "length (pre @ take m src) - offset = length pre + (m - offset)"
    using o lm by simp
  have "(pre @ take m src) ! (length (pre @ take m src) - offset) = take m src ! (m - offset)"
    unfolding idx by (rule nth_append_length_plus)
  also have "\<dots> = src ! (m - offset)" using o by simp
  finally have "pre @ take m src @ [(pre @ take m src) ! (length (pre @ take m src) - offset)]
      = pre @ take (Suc m) src"
    using lm by (simp add: take_Suc_conv_app_nth sm)
  moreover have "copy_back (pre @ take (Suc m) src) offset n = pre @ take (Suc m + n) src"
  proof (rule Suc.IH)
    show "1 \<le> offset" by (rule o(1))
    show "offset \<le> Suc m" using o(2) by simp
    show "Suc m + n \<le> length src" using Suc.prems(3) by simp
    show "\<forall>k. Suc m \<le> k \<and> k < Suc m + n \<longrightarrow> src ! k = src ! (k - offset)"
      using Suc.prems(4) by auto
  qed
  ultimately show ?case by simp
qed

lemma apply_copy_chunks:
  "1 \<le> offset \<Longrightarrow> offset \<le> length out \<Longrightarrow>
   apply_chunks (copy_chunks offset len @ cs) out = apply_chunks cs (copy_back out offset len)"
proof (induction offset len arbitrary: out rule: copy_chunks.induct)
  case (1 offset len)
  show ?case
  proof (cases "len \<ge> 68")
    case True
    have "copy_back out offset len = copy_back (copy_back out offset 64) offset (len - 64)"
      using True copy_back_add[of out offset 64 "len - 64"] by simp
    then show ?thesis using True "1.prems" "1.IH"[OF True, of "copy_back out offset 64"]
      by (subst copy_chunks.simps) simp
  next
    case False
    show ?thesis
    proof (cases "len > 64")
      case True
      have "copy_back out offset len = copy_back (copy_back out offset 60) offset (len - 60)"
        using True copy_back_add[of out offset 60 "len - 60"] by simp
      then show ?thesis using True False "1.prems"
        by (subst copy_chunks.simps) simp
    next
      case f: False
      then show ?thesis using False "1.prems"
        by (subst copy_chunks.simps) simp
    qed
  qed
qed

lemma copies_ok_append:
  "copies_ok pos (cs @ ds) = (copies_ok pos cs \<and> copies_ok (pos + sum_list (map chunk_len cs)) ds)"
proof (induction cs arbitrary: pos)
  case Nil
  then show ?case by simp
next
  case (Cons c cs)
  then show ?case by (cases c) (auto simp: add.assoc)
qed

lemma copies_ok_mono: "copies_ok pos cs \<Longrightarrow> pos \<le> pos' \<Longrightarrow> copies_ok pos' cs"
proof (induction cs arbitrary: pos pos')
  case Nil
  then show ?case by simp
next
  case (Cons c cs)
  show ?case
  proof (cases c)
    case (Literal bs)
    then show ?thesis using Cons.prems Cons.IH[of "pos + length bs" "pos' + length bs"] by simp
  next
    case (Copy offset len)
    then show ?thesis using Cons.prems Cons.IH[of "pos + len" "pos' + len"] by simp
  qed
qed

lemma copy_chunks_facts:
  assumes "4 \<le> len" "1 \<le> offset" "offset \<le> 65535"
  shows "list_all chunk_wf (copy_chunks offset len)
    \<and> sum_list (map chunk_len (copy_chunks offset len)) = len
    \<and> (offset \<le> pos \<longrightarrow> copies_ok pos (copy_chunks offset len))
    \<and> ser (copy_chunks offset len) = emitCopy_spec offset len"
  using assms
proof (induction offset len arbitrary: pos rule: copy_chunks.induct)
  case (1 offset len)
  show ?case
  proof (cases "len \<ge> 68")
    case True
    have ih: "list_all chunk_wf (copy_chunks offset (len - 64))
      \<and> sum_list (map chunk_len (copy_chunks offset (len - 64))) = len - 64
      \<and> (offset \<le> pos + 64 \<longrightarrow> copies_ok (pos + 64) (copy_chunks offset (len - 64)))
      \<and> ser (copy_chunks offset (len - 64)) = emitCopy_spec offset (len - 64)"
      using "1.IH"[OF True, of "pos + 64"] True "1.prems" by simp
    have cc: "copy_chunks offset len = Copy offset 64 # copy_chunks offset (len - 64)"
      using True by (subst copy_chunks.simps) simp
    have es: "emitCopy_spec offset len = copy2 offset 64 @ emitCopy_spec offset (len - 64)"
      using True by (subst emitCopy_spec.simps) simp
    show ?thesis using ih True "1.prems"
      by (simp add: cc es ser_def copy_tail_def)
  next
    case False
    have cc: "copy_chunks offset len =
        (if len > 64 then [Copy offset 60, Copy offset (len - 60)] else [Copy offset len])"
      using False by (subst copy_chunks.simps) simp
    have es: "emitCopy_spec offset len =
        (if len > 64 then copy2 offset 60 @ copy_tail offset (len - 60) else copy_tail offset len)"
      using False by (subst emitCopy_spec.simps) simp
    show ?thesis using False "1.prems"
      by (auto simp: cc es ser_def copy_tail_def)
  qed
qed

lemma emitted_Nil: "emitted [] []"
  by (simp add: emitted_def)

lemma emitted_append:
  assumes "emitted cs xs" "emitted ds ys"
  shows "emitted (cs @ ds) (xs @ ys)"
  using assms copies_ok_mono[of 0 ds "length xs"]
  by (auto simp: emitted_def copies_ok_append apply_chunks_append)

lemma emitted_literal:
  assumes "emitted cs xs" "1 \<le> length lit" "length lit \<le> 65536"
  shows "emitted (cs @ [Literal lit]) (xs @ lit)"
  using assms by (auto simp: emitted_def copies_ok_append apply_chunks_append)

lemma emitted_copy:
  assumes e: "emitted cs (take base src)"
    and c: "candidate < base" "base - candidate \<le> 65535" "4 \<le> len" "base + len \<le> length src"
    and m: "\<forall>k<len. src ! (candidate + k) = src ! (base + k)"
  shows "emitted (cs @ copy_chunks (base - candidate) len) (take (base + len) src)"
proof -
  define offset where "offset = base - candidate"
  have o: "1 \<le> offset" "offset \<le> 65535" "offset \<le> base" using c by (simp_all add: offset_def)
  have lb: "length (take base src) = base" using c by simp
  note f = copy_chunks_facts[OF c(3) o(1) o(2), of base]
  have per: "\<forall>k. base \<le> k \<and> k < base + len \<longrightarrow> src ! k = src ! (k - offset)"
  proof (intro allI impI)
    fix k assume k: "base \<le> k \<and> k < base + len"
    then have "k - base < len" by auto
    with m have "src ! (candidate + (k - base)) = src ! (base + (k - base))" by blast
    moreover have "candidate + (k - base) = k - offset" using k c by (simp add: offset_def)
    ultimately show "src ! k = src ! (k - offset)" using k by simp
  qed
  have ap: "apply_chunks (cs @ copy_chunks offset len) pre = Some (pre @ take (base + len) src)" for pre
  proof -
    have "apply_chunks (cs @ copy_chunks offset len) pre
        = apply_chunks (copy_chunks offset len @ []) (pre @ take base src)"
      using e by (simp add: emitted_def apply_chunks_append)
    also have "\<dots> = Some (copy_back (pre @ take base src) offset len)"
      using o lb by (subst apply_copy_chunks) simp_all
    also have "copy_back (pre @ take base src) offset len = pre @ take (base + len) src"
      using o(1) o(3) c(4) per by (rule copy_back_periodic)
    finally show ?thesis .
  qed
  show ?thesis
    unfolding emitted_def offset_def[symmetric]
    using e f o lb ap c by (auto simp: emitted_def copies_ok_append)
qed

section \<open>Sizes and emitting at a cursor\<close>

lemma length_literal_header:
  "length (literal_header n) = (if n < 60 then 1 else if n < 256 then 2 else 3)"
  by (simp add: literal_header_def)

lemma lit_size:
  assumes "1 \<le> l"
  shows "6 * length (literal_header (l - 1)) \<le> l + 5"
  using assms by (auto simp: length_literal_header)

lemma lit_size_big:
  assumes "17 \<le> l"
  shows "6 * length (literal_header (l - 1)) \<le> l"
  using assms by (auto simp: length_literal_header)

lemma copy_size: "4 \<le> len \<Longrightarrow> 6 * length (emitCopy_spec offset len) + 10 \<le> 7 * len"
proof (induction offset len rule: emitCopy_spec.induct)
  case (1 offset len)
  show ?case
  proof (cases "len \<ge> 68")
    case True
    have es: "emitCopy_spec offset len = copy2 offset 64 @ emitCopy_spec offset (len - 64)"
      using True by (subst emitCopy_spec.simps) simp
    have "6 * length (emitCopy_spec offset (len - 64)) + 10 \<le> 7 * (len - 64)"
      using "1.IH"[OF True] True by simp
    then show ?thesis using True by (simp add: es)
  next
    case False
    have es: "emitCopy_spec offset len =
        (if len > 64 then copy2 offset 60 @ copy_tail offset (len - 60) else copy_tail offset len)"
      using False by (subst emitCopy_spec.simps) simp
    show ?thesis using False "1.prems" by (auto simp: es length_copy_tail)
  qed
qed

lemma put_tail_splice:
  "d \<le> length dst \<Longrightarrow> put_tail dst d (splice (drop d dst) 0 bs) = splice dst d bs"
  by (simp add: put_tail_def splice_def add.commute)

lemma emitLiteral_at_fits:
  assumes "1 \<le> length lit" "length lit \<le> 65536"
    and "d + length (ser_chunk (Literal lit)) \<le> length dst"
  shows "emitLiteral_at dst d lit =
    Inr (splice dst d (ser_chunk (Literal lit)), d + length (ser_chunk (Literal lit)))"
proof -
  have d: "d \<le> length dst" using assms(3) by simp
  have "emitLiteral (drop d dst) lit =
    Inr (splice (drop d dst) 0 (literal_header (length lit - 1) @ lit),
         length (literal_header (length lit - 1)) + length lit)"
    using assms by (intro emitLiteral_splice) simp_all
  then show ?thesis using d
    by (simp add: emitLiteral_at_def tail_of_def put_tail_splice)
qed

lemma emitCopy_at_fits:
  assumes "4 \<le> len" and "d + length (emitCopy_spec offset len) \<le> length dst"
  shows "emitCopy_at dst d (int offset) (int len) =
    Inr (splice dst d (emitCopy_spec offset len), d + length (emitCopy_spec offset len))"
proof -
  have d: "d \<le> length dst" using assms(2) by simp
  have "emitCopy (drop d dst) (int offset) (int len) =
     Inr (splice (drop d dst) 0 (emitCopy_spec offset len), length (emitCopy_spec offset len))"
    using assms by (intro emitCopy_fits) simp_all
  then show ?thesis using d
    by (simp add: emitCopy_at_def tail_of_def put_tail_splice)
qed

lemma extendMatch_ok:
  assumes "i < s" "s \<le> length src"
  shows "\<exists>s'. extendMatch src i s = Inr s' \<and> s \<le> s' \<and> s' \<le> length src
     \<and> (\<forall>k < s' - s. src ! (i + k) = src ! (s + k))"
  using assms
proof (induction src i s rule: extendMatch.induct)
  case (1 src i s)
  show ?case
  proof (cases "s < length src")
    case False
    then show ?thesis using "1.prems" by (subst extendMatch.simps) simp
  next
    case True
    have fi: "fetch src i = Inr (src ! i)" using "1.prems" True by (simp add: fetch_def)
    show ?thesis
    proof (cases "src ! i = src ! s")
      case False
      then show ?thesis using True fi "1.prems" by (subst extendMatch.simps) simp
    next
      case eq: True
      from "1.IH"[OF True fi eq] "1.prems" True
      obtain s' where s': "extendMatch src (i + 1) (s + 1) = Inr s'" "s + 1 \<le> s'" "s' \<le> length src"
        "\<forall>k < s' - (s + 1). src ! (i + 1 + k) = src ! (s + 1 + k)"
        by auto
      have "\<forall>k < s' - s. src ! (i + k) = src ! (s + k)"
      proof (intro allI impI)
        fix k assume k: "k < s' - s"
        show "src ! (i + k) = src ! (s + k)"
        proof (cases k)
          case 0
          then show ?thesis using eq by simp
        next
          case (Suc j)
          then have "j < s' - (s + 1)" using k by simp
          with s'(4) have "src ! (i + 1 + j) = src ! (s + 1 + j)" by blast
          then show ?thesis using Suc by simp
        qed
      qed
      then show ?thesis using True fi eq s' by (subst extendMatch.simps) auto
    qed
  qed
qed

section \<open>The search loop\<close>

lemma load32_Inr: "i + 4 \<le> length b \<Longrightarrow> \<exists>v. load32 b i = Inr v"
  by (simp add: load32_def)

lemma load32_match:
  assumes "load32 src a = Inr v" "load32 src b = Inr v"
  shows "match4 src a b"
proof -
  have la: "a + 4 \<le> length src" and lb: "b + 4 \<le> length src"
    using assms by (auto simp: load32_def split: if_splits)
  have "(ucast (src ! a) OR push_bit 8 (ucast (src ! (a + 1))) OR push_bit 16 (ucast (src ! (a + 2)))
          OR push_bit 24 (ucast (src ! (a + 3))) :: u32)
      = ucast (src ! b) OR push_bit 8 (ucast (src ! (b + 1))) OR push_bit 16 (ucast (src ! (b + 2)))
          OR push_bit 24 (ucast (src ! (b + 3)))"
    using assms la lb by (simp add: load32_def)
  from le32_inj[OF this] have e: "src ! a = src ! b" "src ! (a + 1) = src ! (b + 1)"
    "src ! (a + 2) = src ! (b + 2)" "src ! (a + 3) = src ! (b + 3)" by simp_all
  show ?thesis unfolding match4_def
  proof (intro allI impI)
    fix k :: nat assume "k < 4"
    then consider "k = 0" | "k = 1" | "k = 2" | "k = 3" by linarith
    then show "src ! (a + k) = src ! (b + k)" using e by cases simp_all
  qed
qed

lemma load64_shift:
  assumes "load64 src i = Inr x"
  shows "load32 src (i + 1) = Inr (ucast (drop_bit 8 x))"
proof -
  have l: "i + 8 \<le> length src" using assms by (auto simp: load64_def split: if_splits)
  have x: "x = ucast (src ! i) OR push_bit 8 (ucast (src ! (i + 1)))
                OR push_bit 16 (ucast (src ! (i + 2))) OR push_bit 24 (ucast (src ! (i + 3)))
                OR push_bit 32 (ucast (src ! (i + 4))) OR push_bit 40 (ucast (src ! (i + 5)))
                OR push_bit 48 (ucast (src ! (i + 6))) OR push_bit 56 (ucast (src ! (i + 7)))"
    using assms l by (simp add: load64_def)
  have i: "i + 1 + 1 = i + 2" "i + 1 + 2 = i + 3" "i + 1 + 3 = i + 4" by simp_all
  have "i + 1 + 4 \<le> length src" using l by simp
  then show ?thesis unfolding x le64_shift8 load32_def by (simp only: i if_True)
qed

lemma table_ok_mono: "table_ok table b \<Longrightarrow> b \<le> b' \<Longrightarrow> table_ok table b'"
  by (auto simp: table_ok_def)

lemma table_ok_store:
  assumes "table_ok table b" "c < b" "c < 65536"
  shows "store table (unat (h AND tableMask)) (of_nat c) = Inr (table[unat (h AND tableMask) := of_nat c])"
    and "table_ok (table[unat (h AND tableMask) := of_nat c]) b"
proof -
  have i: "unat (h AND tableMask) < length table"
    using assms(1) index_bound[of h] by (simp add: table_ok_def)
  then show "store table (unat (h AND tableMask)) (of_nat c) = Inr (table[unat (h AND tableMask) := of_nat c])"
    by simp
  have u: "unat (of_nat c :: u16) = c" using assms(3) by (rule unat_of_nat_u16)
  have "set (table[unat (h AND tableMask) := of_nat c]) \<subseteq> insert (of_nat c) (set table)"
    by (rule set_update_subset_insert)
  then show "table_ok (table[unat (h AND tableMask) := of_nat c]) b"
    using assms(1,2) u by (auto simp: table_ok_def)
qed

lemma table_ok_fetch:
  assumes "table_ok table b"
  shows "\<exists>c. fetch table (unat (h AND tableMask)) = Inr c \<and> unat c < b"
proof -
  have i: "unat (h AND tableMask) < length table"
    using assms(1) index_bound[of h] by (simp add: table_ok_def)
  then have "table ! unat (h AND tableMask) \<in> set table" by simp
  then show ?thesis using assms i by (auto simp: fetch_def table_ok_def)
qed

lemma searchStep_ok:
  assumes T: "table_ok table nextS" and sk: "32 \<le> skip"
    and lim: "sLimit = int (length src) - 15" and len: "length src \<le> 65536"
    and ns: "int nextS \<le> sLimit"
  shows "searchStep src shift sLimit table skip nextS nextHash = Inr (SearchExit SearchRemainder)
     \<or> (\<exists>table' cand nh.
           searchStep src shift sLimit table skip nextS nextHash
             = Inr (SearchExit (SearchMatch table' nextS cand nh))
           \<and> cand < nextS \<and> table_ok table' (nextS + 1) \<and> int nextS < sLimit
           \<and> match4 src cand nextS)
     \<or> (\<exists>table' skip' nextS' nh.
           searchStep src shift sLimit table skip nextS nextHash
             = Inr (SearchNext table' skip' nextS' nh)
           \<and> table_ok table' nextS' \<and> 32 \<le> skip' \<and> nextS < nextS' \<and> int nextS' \<le> sLimit)"
proof -
  define b where "b = drop_bit 5 skip"
  have b: "1 \<le> b" using sk by (simp add: b_def drop_bit_eq_div)
  show ?thesis
  proof (cases "int (nextS + b) > sLimit")
    case True
    then show ?thesis by (simp add: searchStep_def Let_def b_def)
  next
    case False
    then have n2: "int (nextS + b) \<le> sLimit" by simp
    have lt: "int nextS < sLimit" using n2 b by simp
    have s16: "nextS < 65536" using lt lim len by simp
    obtain c where c: "fetch table (unat (nextHash AND tableMask)) = Inr c" "unat c < nextS"
      using table_ok_fetch[OF T] by blast
    define table' where "table' = table[unat (nextHash AND tableMask) := of_nat nextS]"
    have T1: "table_ok table (nextS + 1)" using T by (rule table_ok_mono) simp
    have st: "store table (unat (nextHash AND tableMask)) (of_nat nextS) = Inr table'"
      and T': "table_ok table' (nextS + 1)"
      using table_ok_store[OF T1, of nextS nextHash] s16 by (simp_all add: table'_def)
    obtain v where v: "load32 src (nextS + b) = Inr v"
      using load32_Inr[of "nextS + b" src] n2 lim by auto
    obtain a where a: "load32 src nextS = Inr a"
      using load32_Inr[of nextS src] lt lim by auto
    obtain a' where a': "load32 src (unat c) = Inr a'"
      using load32_Inr[of "unat c" src] c(2) lt lim by auto
    show ?thesis
    proof (cases "a = a'")
      case True
      have "match4 src (unat c) nextS" using a a' True load32_match by blast
      moreover have "searchStep src shift sLimit table skip nextS nextHash
           = Inr (SearchExit (SearchMatch table' nextS (unat c) (hash v shift)))"
        using False c st v a a' True by (simp add: searchStep_def Let_def b_def)
      ultimately show ?thesis using c(2) T' lt by blast
    next
      case ne: False
      have "searchStep src shift sLimit table skip nextS nextHash
           = Inr (SearchNext table' (skip + b) (nextS + b) (hash v shift))"
        using False c st v a a' ne by (simp add: searchStep_def Let_def b_def)
      moreover have "table_ok table' (nextS + b)" using b by (intro table_ok_mono[OF T']) simp
      ultimately show ?thesis using sk b n2 by auto
    qed
  qed
qed

lemma search_ok:
  assumes "table_ok table nextS" "32 \<le> skip"
    and "sLimit = int (length src) - 15" "length src \<le> 65536"
    and "int nextS \<le> sLimit"
  shows "search src shift sLimit table skip nextS nextHash = Some (Inr SearchRemainder)
     \<or> (\<exists>table' s' cand nh.
           search src shift sLimit table skip nextS nextHash
             = Some (Inr (SearchMatch table' s' cand nh))
           \<and> nextS \<le> s' \<and> cand < s' \<and> table_ok table' (s' + 1) \<and> int s' < sLimit
           \<and> match4 src cand s')"
  using assms
proof (induction "nat (sLimit - int nextS)" arbitrary: table skip nextS nextHash rule: less_induct)
  case less
  note st = searchStep_ok[OF less.prems, of shift nextHash]
  from st consider
      (rem) "searchStep src shift sLimit table skip nextS nextHash = Inr (SearchExit SearchRemainder)"
    | (mat) table' cand nh where
        "searchStep src shift sLimit table skip nextS nextHash
             = Inr (SearchExit (SearchMatch table' nextS cand nh))"
        "cand < nextS" "table_ok table' (nextS + 1)" "int nextS < sLimit" "match4 src cand nextS"
    | (nxt) table' skip' nextS' nh where
        "searchStep src shift sLimit table skip nextS nextHash
             = Inr (SearchNext table' skip' nextS' nh)"
        "table_ok table' nextS'" "32 \<le> skip'" "nextS < nextS'" "int nextS' \<le> sLimit"
    by blast
  then show ?case
  proof cases
    case rem
    then show ?thesis by (subst search.simps) simp
  next
    case mat
    then show ?thesis by (subst (1 2) search.simps) auto
  next
    case nxt
    have m: "nat (sLimit - int nextS') < nat (sLimit - int nextS)" using nxt(4,5) by simp
    from less.hyps[OF m nxt(2) nxt(3) less.prems(3) less.prems(4) nxt(5), of nh]
    show ?thesis using nxt(1) nxt(4) by (subst (1 2) search.simps) auto
  qed
qed

section \<open>The copy loop\<close>

lemma cap_bound: "6 * x \<le> 7 * n \<Longrightarrow> n + n div 6 \<le> L \<Longrightarrow> x \<le> (L::nat)"
  by arith

lemma load64_Inr: "i + 8 \<le> length b \<Longrightarrow> \<exists>x. load64 b i = Inr x"
  by (simp add: load64_def)

lemma out_inv_extend:
  assumes O: "out_inv src L dst d n" and fit: "d + length bs \<le> L"
    and cs: "\<And>cs. emitted cs (take n src) \<Longrightarrow> \<exists>ds. ser ds = bs \<and> emitted (cs @ ds) (take n' src)"
    and n': "n' \<le> length src"
  shows "out_inv src L (splice dst d bs) (d + length bs) n'"
proof -
  from O obtain cs0 where l: "length dst = L" and d: "d \<le> L"
    and t: "take d dst = ser cs0" and e: "emitted cs0 (take n src)"
    by (auto simp: out_inv_def)
  from cs[OF e] obtain ds where ds: "ser ds = bs" "emitted (cs0 @ ds) (take n' src)" by blast
  have "take (d + length bs) (splice dst d bs) = ser (cs0 @ ds)"
    using fit l t ds(1) by (simp add: ser_append)
  then show ?thesis using fit l ds(2) n' by (auto simp: out_inv_def)
qed

lemma copyStep_ok:
  assumes c: "cand < s" "match4 src cand s" "int s < sLimit"
    and lim: "sLimit = int (length src) - 15" and len: "length src \<le> 65536"
    and T: "table_ok table (s + 1)"
    and O: "out_inv src L dst d s" and sz: "6 * d \<le> 7 * s + 5"
    and cap: "length src + length src div 6 \<le> L"
  shows "\<exists>dst' d' n'. out_inv src L dst' d' n' \<and> 6 * d' + 5 \<le> 7 * n' \<and> s + 4 \<le> n'
     \<and> (copyStep src shift sLimit dst d table s cand = Inr (CopyExit (CopyRemainder dst' d' n'))
        \<or> (\<exists>table' nh. copyStep src shift sLimit dst d table s cand
               = Inr (CopyExit (CopyBreak dst' d' table' n' (n' + 1) nh))
             \<and> int (n' + 1) \<le> sLimit \<and> table_ok table' (n' + 1))
        \<or> (\<exists>table' cand'. copyStep src shift sLimit dst d table s cand
               = Inr (CopyNext dst' d' table' n' cand')
             \<and> cand' < n' \<and> match4 src cand' n' \<and> int n' < sLimit
             \<and> table_ok table' (n' + 1)))"
proof -
  have s16: "s + 16 \<le> length src" using c(3) lim by simp
  obtain s' where em: "extendMatch src (cand + 4) (s + 4) = Inr s'" and s': "s + 4 \<le> s'"
    "s' \<le> length src" and ext: "\<forall>k < s' - (s + 4). src ! (cand + 4 + k) = src ! (s + 4 + k)"
    using extendMatch_ok[of "cand + 4" "s + 4" src] c(1) s16 by auto
  define offset where "offset = s - cand"
  define n where "n = s' - s"
  have o: "1 \<le> offset" "offset \<le> 65535" using c(1) s16 len by (simp_all add: offset_def)
  have n: "4 \<le> n" "s + n = s'" using s' by (simp_all add: n_def)
  have m: "\<forall>k<n. src ! (cand + k) = src ! (s + k)"
  proof (intro allI impI)
    fix k assume k: "k < n"
    show "src ! (cand + k) = src ! (s + k)"
    proof (cases "k < 4")
      case True
      then show ?thesis using c(2) by (simp add: match4_def)
    next
      case False
      then have "k - 4 < s' - (s + 4)" using k by (simp add: n_def)
      with ext have "src ! (cand + 4 + (k - 4)) = src ! (s + 4 + (k - 4))" by blast
      then show ?thesis using False by simp
    qed
  qed
  define bs where "bs = emitCopy_spec offset n"
  have cb: "6 * length bs + 10 \<le> 7 * n" unfolding bs_def using n(1) by (rule copy_size)
  define d' where "d' = d + length bs"
  have sz': "6 * d' + 5 \<le> 7 * s'" using sz cb n(2) by (simp add: d'_def)
  have "6 * d' \<le> 7 * length src" using sz' s'(2) by simp
  then have fit: "d' \<le> L" using cap by (rule cap_bound)
  have Ol: "length dst = L" using O by (simp add: out_inv_def)
  define dst' where "dst' = splice dst d bs"
  have io: "int s - int cand = int offset" "int s' - int s = int n"
    using c(1) s'(1) by (simp_all add: offset_def n_def)
  have ec: "emitCopy_at dst d (int s - int cand) (int s' - int s) = Inr (dst', d')"
    unfolding io dst'_def d'_def bs_def
    using n(1) fit Ol by (intro emitCopy_at_fits) (simp_all add: d'_def bs_def)
  have O': "out_inv src L dst' d' s'"
    unfolding dst'_def d'_def
  proof (rule out_inv_extend[OF O])
    show "d + length bs \<le> L" using fit by (simp add: d'_def)
    show "s' \<le> length src" by (rule s'(2))
    fix cs assume e: "emitted cs (take s src)"
    have "emitted (cs @ copy_chunks (s - cand) n) (take (s + n) src)"
      using e c(1) o(2) n(1) m s'(2) n(2) by (intro emitted_copy) (simp_all add: offset_def)
    moreover have "ser (copy_chunks offset n) = bs"
      using copy_chunks_facts[OF n(1) o, of 0] by (simp add: bs_def)
    ultimately show "\<exists>ds. ser ds = bs \<and> emitted (cs @ ds) (take s' src)"
      using n(2) by (auto simp: offset_def)
  qed
  note unf = copyStep_def Let_def bindr.simps em ec prod.case
  show ?thesis
  proof (cases "int s' \<ge> sLimit")
    case True
    have "copyStep src shift sLimit dst d table s cand = Inr (CopyExit (CopyRemainder dst' d' s'))"
      using True by (simp add: unf)
    then show ?thesis using O' sz' s'(1) by blast
  next
    case False
    then have lt: "int s' < sLimit" by simp
    have s'16: "s' + 16 \<le> length src" using lt lim by simp
    have s'u: "s' < 65536" using s'16 len by simp
    have "s' - 1 + 8 \<le> length src" using s'16 by simp
    from load64_Inr[OF this] obtain x where x: "load64 src (s' - 1) = Inr x" by blast
    have l32: "load32 src s' = Inr (ucast (drop_bit 8 x))"
      using load64_shift[OF x] s'(1) by simp
    define h1 where "h1 = hash (ucast x) shift"
    define h2 where "h2 = hash (ucast (drop_bit 8 x)) shift"
    define t1 where "t1 = table[unat (h1 AND tableMask) := of_nat (s' - 1)]"
    have T0: "table_ok table s'" using T s'(1) by (intro table_ok_mono[OF T]) simp
    have st1: "store table (unat (h1 AND tableMask)) (of_nat (s' - 1)) = Inr t1"
      and T1: "table_ok t1 s'"
      using table_ok_store[OF T0, of "s' - 1" h1] s'(1) s'u by (simp_all add: t1_def)
    obtain cw where cw: "fetch t1 (unat (h2 AND tableMask)) = Inr cw" "unat cw < s'"
      using table_ok_fetch[OF T1] by blast
    define t2 where "t2 = t1[unat (h2 AND tableMask) := of_nat s']"
    have T1': "table_ok t1 (s' + 1)" by (intro table_ok_mono[OF T1]) simp
    have st2: "store t1 (unat (h2 AND tableMask)) (of_nat s') = Inr t2"
      and T2: "table_ok t2 (s' + 1)"
      using table_ok_store[OF T1', of s' h2] s'u by (simp_all add: t2_def)
    obtain v where v: "load32 src (unat cw) = Inr v"
      using load32_Inr[of "unat cw" src] cw(2) s'16 by auto
    have cs: "copyStep src shift sLimit dst d table s cand =
        (if ucast (drop_bit 8 x) \<noteq> v
         then Inr (CopyExit (CopyBreak dst' d' t2 s' (s' + 1) (hash (ucast (drop_bit 16 x)) shift)))
         else Inr (CopyNext dst' d' t2 s' (unat cw)))"
      unfolding copyStep_def Let_def
      using False
      by (simp only: em ec bindr.simps prod.case if_False x st1[unfolded h1_def] cw(1)[unfolded h2_def]
            st2[unfolded h2_def] v)
    show ?thesis
    proof (cases "ucast (drop_bit 8 x) = v")
      case True
      have "match4 src (unat cw) s'" using v l32 True load32_match by blast
      moreover have "copyStep src shift sLimit dst d table s cand
           = Inr (CopyNext dst' d' t2 s' (unat cw))"
        using True by (simp add: cs)
      ultimately show ?thesis using O' sz' s'(1) cw(2) lt T2 by blast
    next
      case ne: False
      have "copyStep src shift sLimit dst d table s cand
           = Inr (CopyExit (CopyBreak dst' d' t2 s' (s' + 1) (hash (ucast (drop_bit 16 x)) shift)))"
        using ne by (simp add: cs)
      moreover have "int (s' + 1) \<le> sLimit" using lt by simp
      ultimately show ?thesis using O' sz' s'(1) T2 by blast
    qed
  qed
qed

lemma copyLoop_ok:
  assumes "cand < s" "match4 src cand s" "int s < sLimit"
    and "sLimit = int (length src) - 15" and "length src \<le> 65536"
    and "table_ok table (s + 1)"
    and "out_inv src L dst d s" and "6 * d \<le> 7 * s + 5"
    and "length src + length src div 6 \<le> L"
  shows "\<exists>dst' d' n'. out_inv src L dst' d' n' \<and> 6 * d' + 5 \<le> 7 * n' \<and> s + 4 \<le> n'
     \<and> (copyLoop src shift sLimit dst d table s cand = Some (Inr (CopyRemainder dst' d' n'))
        \<or> (\<exists>table' nh. copyLoop src shift sLimit dst d table s cand
               = Some (Inr (CopyBreak dst' d' table' n' (n' + 1) nh))
             \<and> int (n' + 1) \<le> sLimit \<and> table_ok table' (n' + 1)))"
  using assms
proof (induction "length src - s" arbitrary: dst d table s cand rule: less_induct)
  case less
  from copyStep_ok[OF less.prems, of shift]
  obtain dst' d' n' where O': "out_inv src L dst' d' n'" and sz': "6 * d' + 5 \<le> 7 * n'"
    and n': "s + 4 \<le> n'"
    and alt: "copyStep src shift sLimit dst d table s cand = Inr (CopyExit (CopyRemainder dst' d' n'))
        \<or> (\<exists>table' nh. copyStep src shift sLimit dst d table s cand
               = Inr (CopyExit (CopyBreak dst' d' table' n' (n' + 1) nh))
             \<and> int (n' + 1) \<le> sLimit \<and> table_ok table' (n' + 1))
        \<or> (\<exists>table' cand'. copyStep src shift sLimit dst d table s cand
               = Inr (CopyNext dst' d' table' n' cand')
             \<and> cand' < n' \<and> match4 src cand' n' \<and> int n' < sLimit
             \<and> table_ok table' (n' + 1))"
    by blast
  from alt consider
      (rem) "copyStep src shift sLimit dst d table s cand = Inr (CopyExit (CopyRemainder dst' d' n'))"
    | (brk) table' nh where "copyStep src shift sLimit dst d table s cand
               = Inr (CopyExit (CopyBreak dst' d' table' n' (n' + 1) nh))"
        "int (n' + 1) \<le> sLimit" "table_ok table' (n' + 1)"
    | (nxt) table' cand' where "copyStep src shift sLimit dst d table s cand
               = Inr (CopyNext dst' d' table' n' cand')"
        "cand' < n'" "match4 src cand' n'" "int n' < sLimit" "table_ok table' (n' + 1)"
    by blast
  then show ?case
  proof cases
    case rem
    have "copyLoop src shift sLimit dst d table s cand = Some (Inr (CopyRemainder dst' d' n'))"
      by (subst copyLoop.simps) (simp add: rem)
    then show ?thesis using O' sz' n' by blast
  next
    case brk
    have "copyLoop src shift sLimit dst d table s cand
        = Some (Inr (CopyBreak dst' d' table' n' (n' + 1) nh))"
      by (subst copyLoop.simps) (simp add: brk(1))
    then show ?thesis using O' sz' n' brk(2,3) by blast
  next
    case nxt
    have eq: "copyLoop src shift sLimit dst d table s cand
        = copyLoop src shift sLimit dst' d' table' n' cand'"
      by (subst copyLoop.simps) (simp add: nxt(1))
    have m: "length src - n' < length src - s" using n' less.prems(3,4) by simp
    have sz2: "6 * d' \<le> 7 * n' + 5" using sz' by simp
    from less.hyps[OF m nxt(2) nxt(3) nxt(4) less.prems(4) less.prems(5) nxt(5) O' sz2 less.prems(9)]
    obtain dst2 d2 n2 where "out_inv src L dst2 d2 n2" "6 * d2 + 5 \<le> 7 * n2" "n' + 4 \<le> n2"
      "copyLoop src shift sLimit dst' d' table' n' cand' = Some (Inr (CopyRemainder dst2 d2 n2))
        \<or> (\<exists>table2 nh. copyLoop src shift sLimit dst' d' table' n' cand'
               = Some (Inr (CopyBreak dst2 d2 table2 n2 (n2 + 1) nh))
             \<and> int (n2 + 1) \<le> sLimit \<and> table_ok table2 (n2 + 1))"
      by blast
    then show ?thesis unfolding eq using n' by (intro exI[of _ dst2] exI[of _ d2] exI[of _ n2]) auto
  qed
qed

lemma slice_Inr: "lo \<le> hi \<Longrightarrow> hi \<le> length xs \<Longrightarrow> slice xs lo hi = Inr (take (hi - lo) (drop lo xs))"
  by (simp add: slice_def)

lemma take_take_drop: "lo \<le> hi \<Longrightarrow> take lo xs @ take (hi - lo) (drop lo xs) = take hi xs"
  by (metis add_diff_cancel_left' le_Suc_ex take_add)

lemma literal_step:
  assumes O: "out_inv src L dst d n" and lt: "n < hi" "hi \<le> length src"
    and len: "length src \<le> 65536"
    and fit: "d + length (literal_header (hi - n - 1)) + (hi - n) \<le> L"
  shows "\<exists>dst' d'. bindr (slice src n hi) (emitLiteral_at dst d) = Inr (dst', d')
     \<and> d' = d + length (literal_header (hi - n - 1)) + (hi - n)
     \<and> out_inv src L dst' d' hi"
proof -
  define lit where "lit = take (hi - n) (drop n src)"
  have ll: "length lit = hi - n" using lt by (simp add: lit_def)
  have sl: "slice src n hi = Inr lit" using lt by (simp add: slice_Inr lit_def)
  have l1: "1 \<le> length lit" "length lit \<le> 65536" using ll lt len by simp_all
  have Ol: "length dst = L" using O by (simp add: out_inv_def)
  have ls: "length (ser_chunk (Literal lit)) = length (literal_header (hi - n - 1)) + (hi - n)"
    by (simp add: ll)
  have el: "emitLiteral_at dst d lit =
      Inr (splice dst d (ser_chunk (Literal lit)), d + length (ser_chunk (Literal lit)))"
    using l1 fit Ol ls by (intro emitLiteral_at_fits) simp_all
  have "out_inv src L (splice dst d (ser_chunk (Literal lit))) (d + length (ser_chunk (Literal lit))) hi"
  proof (rule out_inv_extend[OF O])
    show "d + length (ser_chunk (Literal lit)) \<le> L" using fit ls by simp
    show "hi \<le> length src" by (rule lt(2))
    fix cs assume e: "emitted cs (take n src)"
    have "emitted (cs @ [Literal lit]) (take n src @ lit)"
      using e l1 by (rule emitted_literal)
    moreover have "take n src @ lit = take hi src"
      unfolding lit_def using lt(1) by (intro take_take_drop) simp
    moreover have "ser [Literal lit] = ser_chunk (Literal lit)" by (simp add: ser_def)
    ultimately show "\<exists>ds. ser ds = ser_chunk (Literal lit) \<and> emitted (cs @ ds) (take hi src)"
      by metis
  qed
  then show ?thesis using sl el ls by (simp add: add.assoc)
qed

section \<open>The outer loop and encodeBlock\<close>

lemma mainLoop_ok:
  assumes "table_ok table s" and "sLimit = int (length src) - 15" and "length src \<le> 65536"
    and "int s \<le> sLimit" and "out_inv src L dst d nextEmit" and "nextEmit < s"
    and "(nextEmit = 0 \<and> d = 0) \<or> 6 * d + 5 \<le> 7 * nextEmit"
    and "length src + length src div 6 \<le> L"
  shows "\<exists>dst' d' n'. mainLoop src shift sLimit dst d table nextEmit s nextHash = Some (Inr (dst', d', n'))
     \<and> out_inv src L dst' d' n' \<and> ((n' = 0 \<and> d' = 0) \<or> 6 * d' + 5 \<le> 7 * n')"
  using assms
proof (induction "length src - s" arbitrary: dst d table nextEmit s nextHash rule: less_induct)
  case less
  note T = less.prems(1) and lim = less.prems(2) and len = less.prems(3) and sl = less.prems(4)
    and O = less.prems(5) and ne = less.prems(6) and sz = less.prems(7) and cap = less.prems(8)
  have sk: "(32::nat) \<le> 32" by simp
  from search_ok[OF T sk lim len sl, of shift nextHash] consider
      (rem) "search src shift sLimit table 32 s nextHash = Some (Inr SearchRemainder)"
    | (mat) table' s' cand nh where
        "search src shift sLimit table 32 s nextHash = Some (Inr (SearchMatch table' s' cand nh))"
        "s \<le> s'" "cand < s'" "table_ok table' (s' + 1)" "int s' < sLimit" "match4 src cand s'"
    by blast
  then show ?case
  proof cases
    case rem
    have "mainLoop src shift sLimit dst d table nextEmit s nextHash = Some (Inr (dst, d, nextEmit))"
      by (subst mainLoop.simps) (simp add: rem)
    then show ?thesis using O sz by blast
  next
    case mat
    have s'16: "s' + 16 \<le> length src" using mat(5) lim by simp
    have lt: "nextEmit < s'" "s' \<le> length src" using ne mat(2) s'16 by simp_all
    define h where "h = length (literal_header (s' - nextEmit - 1))"
    have hs: "6 * h \<le> (s' - nextEmit) + 5"
      unfolding h_def using lt(1) lit_size[of "s' - nextEmit"] by simp
    define d1 where "d1 = d + h + (s' - nextEmit)"
    have sz1: "6 * d1 \<le> 7 * s' + 5" using sz hs lt(1) by (auto simp: d1_def)
    have "6 * d1 \<le> 7 * length src" using sz1 s'16 by simp
    then have fit: "d1 \<le> L" using cap by (rule cap_bound)
    from literal_step[OF O lt len fit[unfolded d1_def h_def]]
    obtain dst1 where lit: "bindr (slice src nextEmit s') (emitLiteral_at dst d) = Inr (dst1, d1)"
      and O1: "out_inv src L dst1 d1 s'"
      by (auto simp: d1_def h_def)
    from copyLoop_ok[OF mat(3) mat(6) mat(5) lim len mat(4) O1 sz1 cap, of shift]
    obtain dst2 d2 n2 where O2: "out_inv src L dst2 d2 n2" and sz2: "6 * d2 + 5 \<le> 7 * n2"
      and n2: "s' + 4 \<le> n2"
      and alt: "copyLoop src shift sLimit dst1 d1 table' s' cand = Some (Inr (CopyRemainder dst2 d2 n2))
        \<or> (\<exists>table2 nh2. copyLoop src shift sLimit dst1 d1 table' s' cand
               = Some (Inr (CopyBreak dst2 d2 table2 n2 (n2 + 1) nh2))
             \<and> int (n2 + 1) \<le> sLimit \<and> table_ok table2 (n2 + 1))"
      by blast
    from alt consider
        (crem) "copyLoop src shift sLimit dst1 d1 table' s' cand = Some (Inr (CopyRemainder dst2 d2 n2))"
      | (cbrk) table2 nh2 where "copyLoop src shift sLimit dst1 d1 table' s' cand
               = Some (Inr (CopyBreak dst2 d2 table2 n2 (n2 + 1) nh2))"
          "int (n2 + 1) \<le> sLimit" "table_ok table2 (n2 + 1)"
      by blast
    then show ?thesis
    proof cases
      case crem
      have "mainLoop src shift sLimit dst d table nextEmit s nextHash = Some (Inr (dst2, d2, n2))"
        by (subst mainLoop.simps) (simp add: mat(1) lit crem)
      then show ?thesis using O2 sz2 by blast
    next
      case cbrk
      have eq: "mainLoop src shift sLimit dst d table nextEmit s nextHash
          = mainLoop src shift sLimit dst2 d2 table2 n2 (n2 + 1) nh2"
        by (subst mainLoop.simps) (simp add: mat(1) lit cbrk(1))
      have m: "length src - (n2 + 1) < length src - s" using n2 mat(2) s'16 by simp
      have sz3: "(n2 = 0 \<and> d2 = 0) \<or> 6 * d2 + 5 \<le> 7 * n2" using sz2 by simp
      have "n2 < n2 + 1" by simp
      from less.hyps[OF m cbrk(3) lim len cbrk(2) O2 this sz3 cap, of nh2]
      show ?thesis unfolding eq .
    qed
  qed
qed

lemma table_ok_init: "table_ok (replicate maxTableSize 0) 1"
  by (simp add: table_ok_def)

lemma out_inv_init: "out_inv src (length dst) dst 0 0"
proof -
  have "take 0 dst = ser []" by (simp add: ser_def)
  moreover have "emitted [] (take 0 src)" using emitted_Nil by simp
  ultimately show ?thesis unfolding out_inv_def by blast
qed

lemma encodeBlock_ok:
  assumes l17: "17 \<le> length src" and len: "length src \<le> 65536"
    and cap: "length src + length src div 6 \<le> length dst"
  shows "\<exists>dst' d. encodeBlock dst src = Some (Inr (dst', d))
     \<and> out_inv src (length dst) dst' d (length src) \<and> 6 * d \<le> 7 * length src"
proof -
  have "\<exists>p. tableSizeLoop 24 256 (length src) = Some p"
    by (simp add: tableSizeLoop_cases)
  then obtain shift tableSize where
    ts: "tableSizeLoop 24 256 (length src) = Some (shift, tableSize)"
    by (metis surj_pair)
  define sLimit where "sLimit = int (length src) - int inputMargin"
  have lim: "sLimit = int (length src) - 15" by (simp add: sLimit_def inputMargin_def)
  obtain v where v: "load32 src 1 = Inr v" using load32_Inr[of 1 src] l17 by auto
  have s1: "int 1 \<le> sLimit" using lim l17 by simp
  have sz0: "((0::nat) = 0 \<and> (0::nat) = 0) \<or> 6 * (0::nat) + 5 \<le> 7 * 0" by simp
  have "(0::nat) < 1" by simp
  from mainLoop_ok[OF table_ok_init lim len s1 out_inv_init this sz0 cap, of shift "hash v shift"]
  obtain dst1 d1 n1 where ml: "mainLoop src shift sLimit dst 0 (replicate maxTableSize 0) 0 1 (hash v shift)
        = Some (Inr (dst1, d1, n1))"
    and O1: "out_inv src (length dst) dst1 d1 n1"
    and sz1: "(n1 = 0 \<and> d1 = 0) \<or> 6 * d1 + 5 \<le> 7 * n1"
    by blast
  have n1: "n1 \<le> length src" using O1 by (simp add: out_inv_def)
  have eb: "encodeBlock dst src =
      (if n1 < length src
       then Some (bindr (slice src n1 (length src)) (emitLiteral_at dst1 d1))
       else Some (Inr (dst1, d1)))"
    unfolding encodeBlock_def
    by (simp add: ts Let_def v ml sLimit_def[symmetric] del: One_nat_def)
  show ?thesis
  proof (cases "n1 < length src")
    case False
    then have e: "n1 = length src" using n1 by simp
    then have "6 * d1 \<le> 7 * length src" using sz1 l17 by auto
    then show ?thesis using eb False O1 e by simp
  next
    case True
    define h where "h = length (literal_header (length src - n1 - 1))"
    define d2 where "d2 = d1 + h + (length src - n1)"
    have sz2: "6 * d2 \<le> 7 * length src"
    proof (cases "n1 = 0")
      case True
      then have "d1 = 0" using sz1 by auto
      moreover have "6 * h \<le> length src" unfolding h_def using True lit_size_big[OF l17] by simp
      ultimately show ?thesis using True by (simp add: d2_def)
    next
      case False
      then have "6 * d1 + 5 \<le> 7 * n1" using sz1 by auto
      moreover have "6 * h \<le> (length src - n1) + 5"
        unfolding h_def using True lit_size[of "length src - n1"] by simp
      ultimately show ?thesis using True by (simp add: d2_def)
    qed
    then have fit: "d2 \<le> length dst" using cap by (rule cap_bound)
    have le: "length src \<le> length src" by simp
    from literal_step[OF O1 True le len fit[unfolded d2_def h_def]]
    obtain dst2 where "bindr (slice src n1 (length src)) (emitLiteral_at dst1 d1) = Inr (dst2, d2)"
      "out_inv src (length dst) dst2 d2 (length src)"
      by (auto simp: d2_def h_def)
    then show ?thesis using eb True sz2 by simp
  qed
qed

section \<open>Encode\<close>

lemma PutUvarint_loop_fits:
  "i + length (uvarint x) \<le> length buf \<Longrightarrow>
   bindr (PutUvarint_loop buf i x) (\<lambda>(buf, i, x). bindr (store buf i (of_nat x)) (\<lambda>buf. Inr (buf, i + 1)))
     = Inr (splice buf i (uvarint x), i + length (uvarint x))"
proof (induction buf i x rule: PutUvarint_loop.induct)
  case (1 buf i x)
  show ?case
  proof (cases "x \<ge> 0x80")
    case False
    have u: "uvarint x = [of_nat x]" using False by (subst uvarint.simps) simp
    have "i < length buf" using "1.prems" u by simp
    then show ?thesis using False u
      by (subst PutUvarint_loop.simps) (simp add: upd1)
  next
    case True
    have u: "uvarint x = (of_nat x OR 0x80) # uvarint (drop_bit 7 x)"
      using True by (subst uvarint.simps) simp
    have fit: "i + 1 \<le> length buf" using "1.prems" u by simp
    define buf' where "buf' = splice buf i [of_nat x OR 0x80 :: byte]"
    have st: "store buf i (of_nat x OR 0x80) = Inr buf'"
      using fit by (simp add: upd1 buf'_def)
    have l: "length buf' = length buf" using fit by (simp add: buf'_def)
    have ih: "bindr (PutUvarint_loop buf' (i + 1) (drop_bit 7 x))
        (\<lambda>(buf, i, x). bindr (store buf i (of_nat x)) (\<lambda>buf. Inr (buf, i + 1)))
      = Inr (splice buf' (i + 1) (uvarint (drop_bit 7 x)), i + 1 + length (uvarint (drop_bit 7 x)))"
      using "1.prems" u l by (intro "1.IH"[OF True st]) simp
    have sp: "splice buf' (Suc i) (uvarint (drop_bit 7 x)) = splice buf i (uvarint x)"
      unfolding buf'_def u using fit splice_splice[of i "[of_nat x OR 0x80]" buf "i + 1"] by simp
    show ?thesis using True st ih
      by (subst PutUvarint_loop.simps) (simp add: sp, simp add: u)
  qed
qed

lemma PutUvarint_fits:
  "length (uvarint x) \<le> length buf \<Longrightarrow>
   PutUvarint buf x = Inr (splice buf 0 (uvarint x), length (uvarint x))"
  using PutUvarint_loop_fits[of 0 x buf] by (simp add: PutUvarint_def)

lemma length_uvarint: "x < 2 ^ 32 \<Longrightarrow> 1 \<le> length (uvarint x) \<and> length (uvarint x) \<le> 5"
proof -
  assume x: "x < 2 ^ 32"
  have s: "length (uvarint y) = (if y \<ge> 128 then 1 + length (uvarint (y div 128)) else 1)" for y
    by (subst uvarint.simps) (simp add: drop_bit_eq_div)
  have "x div 128 div 128 div 128 div 128 < 128" using x by simp
  then show ?thesis
    by (simp add: s[of x] s[of "x div 128"] s[of "x div 128 div 128"]
        s[of "x div 128 div 128 div 128"] s[of "x div 128 div 128 div 128 div 128"])
qed

lemma unat_or_128: "unat (of_nat x OR 0x80 :: byte) = 128 + x mod 128"
proof -
  define r where "r = x mod 128"
  define q where "q = x div 128"
  have x: "x = r + push_bit 7 q" by (simp add: r_def q_def push_bit_eq_mult)
  have r: "r < 2 ^ 7" by (simp add: r_def)
  have p: "(128::nat) = push_bit 7 1" by simp
  have "x OR 128 = (r OR push_bit 7 q) OR push_bit 7 1"
    unfolding x nat_or_high[OF r] p[symmetric] ..
  also have "\<dots> = r OR push_bit 7 (q OR 1)"
    by (simp only: or.assoc push_bit_or)
  also have "\<dots> = r + push_bit 7 (q OR 1)"
    by (rule nat_or_high[OF r])
  finally have e: "x OR 128 = r + 128 * (q OR 1)" by (simp add: push_bit_eq_mult)
  have "odd (q OR 1)" by (simp only: even_or_iff) simp
  then obtain k where k: "q OR 1 = 2 * k + 1" by (auto elim: oddE)
  have "(x OR 128) mod 256 = 128 + r"
  proof -
    have r': "r < 128" using r by simp
    have "r + 128 * (2 * k + 1) = (128 + r) + 256 * k" by simp
    then have "(r + 128 * (2 * k + 1)) mod 256 = (128 + r) mod 256" by (simp only: mod_mult_self2)
    then show ?thesis unfolding e k using r' by simp
  qed
  moreover have "(of_nat x OR 0x80 :: byte) = of_nat (x OR 128)"
    by (simp add: of_nat_or_eq)
  ultimately show ?thesis by (simp add: unat_of_nat r_def)
qed

lemma get_uvarint_uvarint: "get_uvarint (uvarint x @ rest) = Some (x, rest)"
proof (induction x rule: uvarint.induct)
  case (1 x)
  show ?case
  proof (cases "x \<ge> 0x80")
    case False
    then have "uvarint x = [of_nat x]" by (subst uvarint.simps) simp
    moreover have "unat (of_nat x :: byte) = x" using False by (intro unat_of_nat_byte) simp
    ultimately show ?thesis using False by simp
  next
    case True
    have u: "uvarint x = (of_nat x OR 0x80) # uvarint (drop_bit 7 x)"
      using True by (subst uvarint.simps) simp
    have "x mod 128 + 128 * (x div 128) = x" by simp
    then show ?thesis using "1.IH"[OF True] True
      by (simp add: u unat_or_128 drop_bit_eq_div)
  qed
qed

lemma Encode_block_ok:
  assumes p1: "1 \<le> length p" and p2: "length p \<le> 65536"
    and cap: "6 * d + 7 * length p + 6 \<le> 6 * length dst"
  shows "\<exists>dst1 d1 cs1.
    (if length p < minNonLiteralBlockSize then Some (emitLiteral_at dst d p)
     else case tail_of dst d of
            Inl e \<Rightarrow> Some (Inl e)
          | Inr t \<Rightarrow>
              Option.bind (encodeBlock t p) (\<lambda>r.
                case r of
                  Inl e \<Rightarrow> Some (Inl e)
                | Inr (t', n) \<Rightarrow> Some (Inr (put_tail dst d t', d + n))))
      = Some (Inr (dst1, d1))
    \<and> length dst1 = length dst \<and> d1 \<le> length dst
    \<and> take d1 dst1 = take d dst @ ser cs1 \<and> emitted cs1 p
    \<and> 6 * d1 \<le> 6 * d + 7 * length p + 6
    \<and> (17 \<le> length p \<longrightarrow> 6 * d1 \<le> 6 * d + 7 * length p)"
proof (cases "length p < 17")
  case True
  have m: "length p < minNonLiteralBlockSize"
    using True by (simp add: minNonLiteralBlockSize_def inputMargin_def)
  have ls: "length (ser_chunk (Literal p)) = 1 + length p"
    using True by (simp add: length_literal_header)
  have fit: "d + length (ser_chunk (Literal p)) \<le> length dst"
    unfolding ls using cap p1 by linarith
  have e: "emitLiteral_at dst d p =
      Inr (splice dst d (ser_chunk (Literal p)), d + length (ser_chunk (Literal p)))"
    by (rule emitLiteral_at_fits[OF p1 p2 fit])
  have t: "take (d + length (ser_chunk (Literal p))) (splice dst d (ser_chunk (Literal p)))
      = take d dst @ ser [Literal p]"
    using take_splice[OF fit] by (simp add: ser_def)
  have em: "emitted [Literal p] p"
    using emitted_literal[OF emitted_Nil p1 p2] by simp
  have l: "length (splice dst d (ser_chunk (Literal p))) = length dst"
    by (rule length_splice[OF fit])
  have c: "6 * (d + length (ser_chunk (Literal p))) \<le> 6 * d + 7 * length p + 6"
    unfolding ls using p1 by simp
  show ?thesis
    apply (rule exI[of _ "splice dst d (ser_chunk (Literal p))"])
    apply (rule exI[of _ "d + length (ser_chunk (Literal p))"])
    apply (rule exI[of _ "[Literal p]"])
    using m e t em l c fit True by simp
next
  case False
  then have l17: "17 \<le> length p" by simp
  have m: "\<not> length p < minNonLiteralBlockSize"
    using False by (simp add: minNonLiteralBlockSize_def inputMargin_def)
  have d: "d \<le> length dst" using cap by linarith
  have tl: "tail_of dst d = Inr (drop d dst)" using d by (simp add: tail_of_def)
  have c: "length p + length p div 6 \<le> length (drop d dst)"
    using cap d by simp
  from encodeBlock_ok[OF l17 p2 c] obtain t' n where
    eb: "encodeBlock (drop d dst) p = Some (Inr (t', n))"
    and oi: "out_inv p (length (drop d dst)) t' n (length p)"
    and sz: "6 * n \<le> 7 * length p" by blast
  from oi obtain cs where lt: "length t' = length dst - d" and n: "n \<le> length dst - d"
    and tk: "take n t' = ser cs" and em: "emitted cs p"
    by (auto simp: out_inv_def)
  show ?thesis
    apply (rule exI[of _ "put_tail dst d t'"])
    apply (rule exI[of _ "d + n"])
    apply (rule exI[of _ cs])
    using m tl eb lt n tk em sz d by (simp add: put_tail_def)
qed

lemma Encode_loop_ok:
  assumes "6 * d + 7 * length src + 6 \<le> 6 * length dst"
  shows "\<exists>dst' d' cs. Encode_loop dst d src = Some (Inr (dst', d'))
     \<and> length dst' = length dst \<and> d' \<le> length dst
     \<and> take d' dst' = take d dst @ ser cs \<and> emitted cs src
     \<and> d \<le> d' \<and> 6 * d' \<le> 6 * d + 7 * length src + 6"
  using assms
proof (induction dst d src rule: Encode_loop.induct)
  case (1 dst d src)
  show ?case
  proof (cases "0 < length src")
    case False
    then have "Encode_loop dst d src = Some (Inr (dst, d))"
      by (subst Encode_loop.simps) simp
    moreover have "d \<le> length dst" using "1.prems" by linarith
    ultimately show ?thesis using False emitted_Nil
      by (intro exI[of _ dst] exI[of _ d] exI[of _ "[]"]) (simp add: ser_def)
  next
    case True
    define p where "p = (if maxBlockSize < length src then take maxBlockSize src else src)"
    define src' where "src' = (if maxBlockSize < length src then drop maxBlockSize src else [])"
    have sp: "src = p @ src'" by (simp add: p_def src'_def)
    have p1: "1 \<le> length p" using True by (cases src) (simp_all add: p_def maxBlockSize_def)
    have p2: "length p \<le> 65536" by (simp add: p_def maxBlockSize_def)
    have ls: "length src = length p + length src'" using sp by simp
    have p3: "src' \<noteq> [] \<longrightarrow> 17 \<le> length p"
      by (simp add: p_def src'_def maxBlockSize_def)
    have cap: "6 * d + 7 * length p + 6 \<le> 6 * length dst" using "1.prems" ls by linarith
    from Encode_block_ok[OF p1 p2 cap] obtain dst1 d1 cs1 where
      st: "(if length p < minNonLiteralBlockSize then Some (emitLiteral_at dst d p)
           else case tail_of dst d of
            Inl e \<Rightarrow> Some (Inl e)
          | Inr t \<Rightarrow>
              Option.bind (encodeBlock t p) (\<lambda>r.
                case r of
                  Inl e \<Rightarrow> Some (Inl e)
                | Inr (t', n) \<Rightarrow> Some (Inr (put_tail dst d t', d + n))))
           = Some (Inr (dst1, d1))"
      and l1: "length dst1 = length dst" and d1: "d1 \<le> length dst"
      and t1: "take d1 dst1 = take d dst @ ser cs1" and e1: "emitted cs1 p"
      and s1: "6 * d1 \<le> 6 * d + 7 * length p + 6"
      and s1': "17 \<le> length p \<longrightarrow> 6 * d1 \<le> 6 * d + 7 * length p" by blast
    have dd: "d \<le> d1"
    proof -
      have "length (take d1 dst1) = d1" using d1 l1 by simp
      moreover have "length (take d dst @ ser cs1) \<ge> d" using "1.prems" by simp
      ultimately show ?thesis using t1 by simp
    qed
    show ?thesis
    proof (cases "src' = []")
      case True
      have "Encode_loop dst1 d1 src' = Some (Inr (dst1, d1))"
        using True by (subst Encode_loop.simps) simp
      then have "Encode_loop dst d src = Some (Inr (dst1, d1))"
        using \<open>0 < length src\<close> st[unfolded p_def]
        by (subst Encode_loop.simps) (simp add: src'_def[symmetric] Let_def)
      moreover have "src = p" using sp True by simp
      ultimately show ?thesis using l1 d1 t1 e1 s1 dd
        by (intro exI[of _ dst1] exI[of _ d1] exI[of _ cs1]) simp
    next
      case False
      then have s17: "6 * d1 \<le> 6 * d + 7 * length p" using p3 s1' by simp
      have cap': "6 * d1 + 7 * length src' + 6 \<le> 6 * length dst1"
        using "1.prems" s17 ls l1 by linarith
      from "1.IH"[OF True p_def src'_def st refl refl cap'] obtain dst' d' cs where
        el: "Encode_loop dst1 d1 src' = Some (Inr (dst', d'))"
        and l2: "length dst' = length dst1" and d2: "d' \<le> length dst1"
        and t2: "take d' dst' = take d1 dst1 @ ser cs" and e2: "emitted cs src'"
        and dd2: "d1 \<le> d'"
        and s2: "6 * d' \<le> 6 * d1 + 7 * length src' + 6" by blast
      have "Encode_loop dst d src = Some (Inr (dst', d'))"
        using \<open>0 < length src\<close> st[unfolded p_def] el
        by (subst Encode_loop.simps) (simp add: src'_def[symmetric] Let_def)
      moreover have "emitted (cs1 @ cs) src" unfolding sp by (rule emitted_append[OF e1 e2])
      moreover have "take d' dst' = take d dst @ ser (cs1 @ cs)"
        using t2 t1 by (simp add: ser_append)
      moreover have "6 * d' \<le> 6 * d + 7 * length src + 6" using s2 s17 ls by linarith
      ultimately show ?thesis using l1 l2 d2 dd dd2
        by (intro exI[of _ dst'] exI[of _ d'] exI[of _ "cs1 @ cs"]) simp
    qed
  qed
qed

lemma MaxEncodedLen_cases:
  assumes "- (2 ^ 63) \<le> k" "k < 2 ^ 63"
  shows "MaxEncodedLen k =
    (if 0 \<le> k \<and> k \<le> 4294967295 \<and> 32 + k + k div 6 \<le> 4294967295
     then 32 + k + k div 6 else - 1)"
proof (cases "0 \<le> k")
  case True
  have m: "k mod 2 ^ 64 = k" using True assms by (intro mod_pos_pos_trivial) simp_all
  show ?thesis
  proof (cases "k \<le> 4294967295")
    case False
    then show ?thesis using m by (simp add: MaxEncodedLen_def)
  next
    case k: True
    have "(32 + k + k div 6) mod 2 ^ 64 = 32 + k + k div 6"
      using True k by (intro mod_pos_pos_trivial) simp_all
    then show ?thesis using m True k by (simp add: MaxEncodedLen_def Let_def)
  qed
next
  case False
  have "(k + 2 ^ 64) mod 2 ^ 64 = k + 2 ^ 64"
    using False assms by (intro mod_pos_pos_trivial) simp_all
  moreover have "(k + 2 ^ 64) mod 2 ^ 64 = k mod 2 ^ 64" by simp
  ultimately have "k mod 2 ^ 64 = k + 2 ^ 64" by simp
  then show ?thesis using False assms by (simp add: MaxEncodedLen_def)
qed

lemma MaxEncodedLen_length:
  assumes n: "length src \<le> 4294967295" and m: "0 \<le> MaxEncodedLen (int (length src))"
  shows "MaxEncodedLen (int (length src)) = int (32 + length src + length src div 6)"
proof -
  have "MaxEncodedLen (int (length src)) =
    (if 0 \<le> int (length src) \<and> int (length src) \<le> 4294967295
       \<and> 32 + int (length src) + int (length src) div 6 \<le> 4294967295
     then 32 + int (length src) + int (length src) div 6 else - 1)"
    using n by (intro MaxEncodedLen_cases) simp_all
  then show ?thesis using m by (simp split: if_splits add: zdiv_int)
qed

lemma Encode_ok:
  assumes n: "length src \<le> 4294967295" and m: "0 \<le> MaxEncodedLen (int (length src))"
  shows "\<exists>dst' out cs. Encode dst src = Some (Inr (dst', out))
     \<and> out = uvarint (length src) @ ser cs \<and> emitted cs src
     \<and> int (length out) \<le> MaxEncodedLen (int (length src))
     \<and> (if int (length dst) < MaxEncodedLen (int (length src)) then dst' = dst
         else length dst' = length dst \<and> take (length out) dst' = out)"
proof -
  define M where "M = 32 + length src + length src div 6"
  have Mi: "MaxEncodedLen (int (length src)) = int M"
    unfolding M_def by (rule MaxEncodedLen_length[OF n m])
  define fresh where "fresh = (length dst < M)"
  define buf where "buf = (if fresh then replicate M 0 else dst)"
  have lb: "M \<le> length buf" by (simp add: buf_def fresh_def)
  have lu: "1 \<le> length (uvarint (length src))" "length (uvarint (length src)) \<le> 5"
    using length_uvarint[of "length src"] n by simp_all
  define k where "k = length (uvarint (length src))"
  define buf1 where "buf1 = splice buf 0 (uvarint (length src))"
  have kb: "0 + length (uvarint (length src)) \<le> length buf" using lu lb by (simp add: M_def)
  have pu: "PutUvarint buf (length src) = Inr (buf1, k)"
    unfolding buf1_def k_def using kb by (intro PutUvarint_fits) simp
  have l1: "length buf1 = length buf" unfolding buf1_def by (rule length_splice[OF kb])
  have t1: "take k buf1 = uvarint (length src)"
    unfolding buf1_def k_def using take_splice[OF kb] by simp
  have cap: "6 * k + 7 * length src + 6 \<le> 6 * length buf1"
    using lb lu l1 unfolding k_def M_def by linarith
  from Encode_loop_ok[OF cap] obtain buf2 d' cs where
    el: "Encode_loop buf1 k src = Some (Inr (buf2, d'))"
    and l2: "length buf2 = length buf1" and d2: "d' \<le> length buf1"
    and t2: "take d' buf2 = take k buf1 @ ser cs" and em: "emitted cs src"
    and sz: "6 * d' \<le> 6 * k + 7 * length src + 6" by blast
  have sl: "slice buf2 0 d' = Inr (take d' buf2)" using d2 l2 by (simp add: slice_def)
  have ld: "length (take d' buf2) = d'" using d2 l2 by simp
  have M0: "\<not> int M < 0" by simp
  have e: "Encode dst src = Some (Inr (if fresh then dst else buf2, take d' buf2))"
  proof (cases fresh)
    case True
    then have "buf = replicate M 0" by (simp add: buf_def)
    then show ?thesis using pu el sl True unfolding Encode_def Mi
      by (simp add: Let_def fresh_def)
  next
    case False
    then have "buf = dst" by (simp add: buf_def)
    then show ?thesis using pu el sl False unfolding Encode_def Mi
      by (simp add: Let_def fresh_def)
  qed
  have b: "d' \<le> M" using sz lu unfolding k_def M_def by linarith
  have lbd: "\<not> fresh \<Longrightarrow> length buf2 = length dst" using l2 l1 by (simp add: buf_def)
  show ?thesis
    apply (rule exI[of _ "if fresh then dst else buf2"])
    apply (rule exI[of _ "take d' buf2"])
    apply (rule exI[of _ cs])
    using e t2 t1 em b ld lbd unfolding Mi by (simp add: fresh_def)
qed

lemma decode_emitted:
  assumes "emitted cs src"
  shows "decode (uvarint (length src) @ ser cs) = Some src"
proof -
  have "parse_chunks (ser cs) = Some cs" using assms by (intro parse_ser) (simp add: emitted_def)
  moreover have "apply_chunks cs [] = Some src" using assms by (simp add: emitted_def)
  ultimately show ?thesis by (simp add: decode_def get_uvarint_uvarint)
qed

lemma emitted_starts_literal:
  assumes "emitted cs src" "src \<noteq> []"
  shows "\<exists>lit cs'. cs = Literal lit # cs'"
proof (cases cs)
  case Nil
  then show ?thesis using assms by (simp add: emitted_def)
next
  case (Cons c cs')
  then show ?thesis using assms by (cases c) (simp_all add: emitted_def)
qed

section \<open>Blocks and rounds of the framed writer\<close>

lemma bindr_eq_Inr: "(bindr m f = Inr y) = (\<exists>x. m = Inr x \<and> f x = Inr y)"
  by (cases m) auto

lemma send_chunk_facts:
  assumes "send_chunk wr out ct u = (wr', r)"
  shows "err wr' = (if r = None then err wr else r) \<and> ibuf wr' = ibuf wr \<and> obuf wr' = obuf wr
    \<and> wroteStreamHeader wr' = wroteStreamHeader wr
    \<and> respond (w wr') = respond (w wr)
    \<and> ((calls (w wr') = calls (w wr) @ [out] \<and> r = respond (w wr) (calls (w wr)) out
          \<and> (r = None \<longrightarrow> ct \<noteq> chunkTypeUncompressedData))
       \<or> (calls (w wr') = calls (w wr) @ [out, u] \<and> respond (w wr) (calls (w wr)) out = None
             \<and> r = respond (w wr) (calls (w wr) @ [out]) u \<and> ct = chunkTypeUncompressedData))"
  using assms unfolding send_chunk_def Let_def sink_Write_def
  by (auto split: option.splits if_splits)

lemma write_block_shape:
  assumes "write_block wr u = Some (Inr res)"
  obtains wr1 t t' compressed b out where
    "wr1 = (if \<not> wroteStreamHeader wr
            then wr\<lparr>wroteStreamHeader := True, obuf := fst (go_copy (obuf wr) magicChunk)\<rparr>
            else wr)"
    "tail_of (obuf wr1) obufHeaderLen = Inr t"
    "Encode t u = Some (Inr (t', compressed))"
    "fill_header (put_tail (obuf wr1) obufHeaderLen t')
       (if length compressed \<ge> length u - length u div 8
        then chunkTypeUncompressedData else chunkTypeCompressedData)
       (if length compressed \<ge> length u - length u div 8
        then 4 + length u else 4 + length compressed) (crc u) = Inr b"
    "slice b (if \<not> wroteStreamHeader wr then 0 else length magicChunk)
       (if length compressed \<ge> length u - length u div 8
        then obufHeaderLen else obufHeaderLen + length compressed) = Inr out"
    "res = send_chunk (wr1\<lparr>obuf := b\<rparr>) out
       (if length compressed \<ge> length u - length u div 8
        then chunkTypeUncompressedData else chunkTypeCompressedData) u"
proof -
  define wr1 where "wr1 = (if \<not> wroteStreamHeader wr
            then wr\<lparr>wroteStreamHeader := True, obuf := fst (go_copy (obuf wr) magicChunk)\<rparr>
            else wr)"
  note wb = assms[unfolded write_block_def Let_def, folded wr1_def]
  obtain t where t: "tail_of (obuf wr1) obufHeaderLen = Inr t"
    using wb by (cases "tail_of (obuf wr1) obufHeaderLen") auto
  obtain t' compressed where enc: "Encode t u = Some (Inr (t', compressed))"
    using wb t by (cases "Encode t u") (auto split: sum.splits)
  define raw where "raw = (length compressed \<ge> length u - length u div 8)"
  note wb1 = wb[unfolded t, simplified]
  note wb2 = wb1[unfolded enc, simplified, folded raw_def]
  obtain b where b: "fill_header (put_tail (obuf wr1) obufHeaderLen t')
       (if raw then chunkTypeUncompressedData else chunkTypeCompressedData)
       (if raw then 4 + length u else 4 + length compressed) (crc u) = Inr b"
    using wb2 by (auto simp: bindr_eq_Inr)
  obtain out where out: "slice b (if \<not> wroteStreamHeader wr then 0 else length magicChunk)
       (if raw then obufHeaderLen else obufHeaderLen + length compressed) = Inr out"
    using wb2 b by (auto simp: bindr_eq_Inr)
  have "res = send_chunk (wr1\<lparr>obuf := b\<rparr>) out
       (if raw then chunkTypeUncompressedData else chunkTypeCompressedData) u"
    using wb2 b out by (auto simp: bindr_eq_Inr)
  with that[OF wr1_def t enc] b out show thesis unfolding raw_def by blast
qed

lemma write_block_Inr:
  assumes "write_block wr u = Some (Inr (wr', r))"
  shows "err wr' = (if r = None then err wr else r) \<and> ibuf wr' = ibuf wr \<and> respond (w wr') = respond (w wr)
    \<and> wroteStreamHeader wr'
    \<and> ((\<exists>a. calls (w wr') = calls (w wr) @ [a] \<and> r = respond (w wr) (calls (w wr)) a)
       \<or> (\<exists>a. calls (w wr') = calls (w wr) @ [a, u] \<and> respond (w wr) (calls (w wr)) a = None
             \<and> r = respond (w wr) (calls (w wr) @ [a]) u))"
proof -
  from assms obtain wr1 b out ct where
    wr1: "wr1 = (if \<not> wroteStreamHeader wr
            then wr\<lparr>wroteStreamHeader := True, obuf := fst (go_copy (obuf wr) magicChunk)\<rparr>
            else wr)"
    and sc: "(wr', r) = send_chunk (wr1\<lparr>obuf := b\<rparr>) out ct u"
    by (rule write_block_shape)
  have same: "err wr1 = err wr" "ibuf wr1 = ibuf wr" "w wr1 = w wr" "wroteStreamHeader wr1"
    by (simp_all add: wr1)
  from send_chunk_facts[OF sc[symmetric]] same show ?thesis by auto
qed

lemma write_loop_facts:
  "write_loop wr p n = Some (Inr (wr', n', r)) \<Longrightarrow>
   err wr' = (if r = None then err wr else r) \<and> ibuf wr' = ibuf wr \<and> n' \<le> n + length p
   \<and> (r = None \<longrightarrow> n' = n + length p)"
proof (induction wr p n rule: write_loop.induct)
  case (1 wr p nRet)
  show ?case
  proof (cases "length p > 0")
    case False
    then show ?thesis using "1.prems" by (subst (asm) write_loop.simps) auto
  next
    case True
    define u where "u = (if length p > maxBlockSize then take maxBlockSize p else p)"
    define p' where "p' = (if length p > maxBlockSize then drop maxBlockSize p else [])"
    have lp: "length u + length p' = length p" by (auto simp: u_def p'_def)
    note wl = "1.prems"[unfolded write_loop.simps[of wr p nRet] Let_def, folded u_def p'_def]
    from wl True obtain wr1 r1 where wb: "write_block wr u = Some (Inr (wr1, r1))"
      by (cases "write_block wr u") (auto split: sum.splits)
    have f: "err wr1 = (if r1 = None then err wr else r1)" "ibuf wr1 = ibuf wr"
      using write_block_Inr[OF wb] by simp_all
    show ?thesis
    proof (cases r1)
      case (Some er)
      then have "wr' = wr1" "n' = nRet" "r = Some er" using wl True wb by auto
      then show ?thesis using f Some by simp
    next
      case None
      then have rec: "write_loop wr1 p' (nRet + length u) = Some (Inr (wr', n', r))"
        using wl True wb by simp
      from "1.IH"[OF True u_def p'_def wb refl refl None rec] None f lp
      show ?thesis by auto
    qed
  qed
qed

section \<open>Properties of Encode and encodeBlock\<close>

lemma block_cap:
  assumes "length src \<le> 65536" "MaxEncodedLen (int (length src)) \<le> int (length dst)"
  shows "length src + length src div 6 \<le> length dst"
proof -
  have "MaxEncodedLen (int (length src)) = 32 + int (length src) + int (length src) div 6"
    using assms(1) by (subst MaxEncodedLen_cases) simp_all
  then show ?thesis using assms(2) by (simp add: zdiv_int[symmetric])
qed

lemma cursor_u16: "s < 65536 \<Longrightarrow> unat (of_nat s :: u16) = s"
  by (simp add: unat_of_nat)

lemma searchStep_stores:
  assumes st: "searchStep src shift sLimit table skip nextS nextHash = Inr r"
    and r: "r = SearchExit (SearchMatch table' a b c) \<or> r = SearchNext table' a b c"
    and lim: "sLimit \<le> 65521"
  shows "table' = table[unat (nextHash AND tableMask) := of_nat nextS] \<and> nextS < 65536"
  using st r lim unfolding searchStep_def Let_def
  by (auto simp: bindr_eq_Inr store_def split: if_splits)

lemma copyStep_stores:
  assumes st: "copyStep src shift sLimit dst d table s candidate = Inr r"
    and r: "r = CopyExit (CopyBreak dst' d' table' s' s2 h) \<or> r = CopyNext dst' d' table' s' c'"
    and lim: "sLimit \<le> 65521"
  shows "(\<exists>i j. table' = table[i := of_nat (s' - 1), j := of_nat s']) \<and> s' < 65536"
  using st r lim unfolding copyStep_def Let_def
  by (auto simp: bindr_eq_Inr store_def split: if_splits prod.splits)


text \<open>
  C1 (amended). \<open>Encode\<close> accepts \<open>src\<close> when \<open>MaxEncodedLen(len(src))\<close> is not negative, not
  for every length up to \<open>2 ^ 32 - 1\<close>. For every such \<open>src\<close> and every \<open>dst\<close>, \<open>Encode\<close>
  returns a block: its leading varint is \<open>len(src)\<close>; the rest parses into tagged chunks
  whose copies are valid and whose lengths sum to \<open>len(src)\<close>; the chunks decode to \<open>src\<close>,
  and so does the whole output under the reference decoder.
\<close>

theorem Encode_round_trip:
  assumes "length src \<le> 4294967295" and "0 \<le> MaxEncodedLen (int (length src))"
  shows "\<exists>dst' out rest cs. Encode dst src = Some (Inr (dst', out))
     \<and> get_uvarint out = Some (length src, rest)
     \<and> parse_chunks rest = Some cs
     \<and> copies_ok 0 cs
     \<and> sum_list (map chunk_len cs) = length src
     \<and> apply_chunks cs [] = Some src
     \<and> decode out = Some src"
proof -
  from Encode_ok[OF assms, of dst] obtain dst' out cs where
    e: "Encode dst src = Some (Inr (dst', out))"
    and o: "out = uvarint (length src) @ ser cs" and em: "emitted cs src" by blast
  have "get_uvarint out = Some (length src, ser cs)" unfolding o by (rule get_uvarint_uvarint)
  moreover have "parse_chunks (ser cs) = Some cs"
    using em by (intro parse_ser) (simp add: emitted_def)
  moreover have "copies_ok 0 cs" "sum_list (map chunk_len cs) = length src"
    "apply_chunks cs [] = Some src"
    using em by (simp_all add: emitted_def)
  moreover have "decode out = Some src" unfolding o by (rule decode_emitted[OF em])
  ultimately show ?thesis using e by blast
qed

theorem Encode_round_trip_witness:
  "length [0x61 :: byte] \<le> 4294967295 \<and> 0 \<le> MaxEncodedLen (int (length [0x61 :: byte]))
   \<and> (\<exists>dst' out rest cs. Encode [] [0x61] = Some (Inr (dst', out))
     \<and> get_uvarint out = Some (length [0x61 :: byte], rest)
     \<and> parse_chunks rest = Some cs
     \<and> copies_ok 0 cs
     \<and> sum_list (map chunk_len cs) = length [0x61 :: byte]
     \<and> apply_chunks cs [] = Some [0x61]
     \<and> decode out = Some [0x61])"
proof -
  have h1: "length [0x61 :: byte] \<le> 4294967295" by simp
  have h2: "0 \<le> MaxEncodedLen (int (length [0x61 :: byte]))" by (simp add: MaxEncodedLen_def)
  show ?thesis using Encode_round_trip[OF h1 h2, of "[]"] h1 h2 by blast
qed

text \<open>
  C1 as stated fails: a source of 4000000000 bytes has a length of at most \<open>2 ^ 32 - 1\<close>,
  and \<open>Encode\<close> panics with \<open>ErrTooLarge\<close> on it.
\<close>

theorem Encode_counterexample:
  "length (replicate 4000000000 (0 :: byte)) \<le> 2 ^ 32 - 1
   \<and> Encode [] (replicate 4000000000 0) = Some (Inl ErrTooLarge)"
  by (simp add: Encode_def MaxEncodedLen_def)

text \<open>
  C2. For every \<open>src\<close> (of a length in the range of Go's \<open>int\<close>) with
  \<open>MaxEncodedLen(len(src)) \<ge> 0\<close>, \<open>Encode\<close> returns a byte sequence of at most
  \<open>MaxEncodedLen(len(src))\<close> bytes; and for every \<open>k\<close> in the range of \<open>int\<close>,
  \<open>MaxEncodedLen(k)\<close> is \<open>32 + k + k / 6\<close> when \<open>0 \<le> k \<le> 2 ^ 32 - 1\<close> and that sum is at
  most \<open>2 ^ 32 - 1\<close>, and \<open>- 1\<close> otherwise.
\<close>

theorem Encode_length_bound:
  assumes "int (length src) < 2 ^ 63" and "0 \<le> MaxEncodedLen (int (length src))"
  shows "(\<exists>dst' out. Encode dst src = Some (Inr (dst', out))
      \<and> int (length out) \<le> MaxEncodedLen (int (length src)))
    \<and> (\<forall>k. - (2 ^ 63) \<le> k \<and> k < 2 ^ 63 \<longrightarrow>
          MaxEncodedLen k =
            (if 0 \<le> k \<and> k \<le> 2 ^ 32 - 1 \<and> 32 + k + k div 6 \<le> 2 ^ 32 - 1
             then 32 + k + k div 6 else - 1))"
proof -
  have c: "MaxEncodedLen k =
      (if 0 \<le> k \<and> k \<le> 2 ^ 32 - 1 \<and> 32 + k + k div 6 \<le> 2 ^ 32 - 1
       then 32 + k + k div 6 else - 1)" if "- (2 ^ 63) \<le> k" "k < 2 ^ 63" for k
    using MaxEncodedLen_cases[OF that] by simp
  have "- (2 ^ 63) \<le> int (length src)" by simp
  from c[OF this assms(1)] assms(2) have n: "length src \<le> 4294967295"
    by (simp split: if_splits)
  from Encode_ok[OF n assms(2), of dst] have
    "\<exists>dst' out. Encode dst src = Some (Inr (dst', out))
      \<and> int (length out) \<le> MaxEncodedLen (int (length src))" by blast
  then show ?thesis using c by blast
qed

theorem Encode_length_bound_witness:
  "int (length [0x61 :: byte]) < 2 ^ 63 \<and> 0 \<le> MaxEncodedLen (int (length [0x61 :: byte]))
   \<and> (\<exists>dst' out. Encode [] [0x61] = Some (Inr (dst', out))
      \<and> int (length out) \<le> MaxEncodedLen (int (length [0x61 :: byte])))
   \<and> MaxEncodedLen 6 = 39 \<and> MaxEncodedLen 4000000000 = - 1"
proof -
  have h1: "int (length [0x61 :: byte]) < 2 ^ 63" by simp
  have h2: "0 \<le> MaxEncodedLen (int (length [0x61 :: byte]))" by (simp add: MaxEncodedLen_def)
  note t = Encode_length_bound[OF h1 h2, of "[]"]
  from t have a: "\<exists>dst' out. Encode [] [0x61] = Some (Inr (dst', out))
      \<and> int (length out) \<le> MaxEncodedLen (int (length [0x61 :: byte]))" by (rule conjunct1)
  from t have b: "\<forall>k. - (2 ^ 63) \<le> k \<and> k < 2 ^ 63 \<longrightarrow>
          MaxEncodedLen k =
            (if 0 \<le> k \<and> k \<le> 2 ^ 32 - 1 \<and> 32 + k + k div 6 \<le> 2 ^ 32 - 1
             then 32 + k + k div 6 else - 1)" by (rule conjunct2)
  have "MaxEncodedLen 6 = 39" using b[rule_format, of 6] by simp
  moreover have "MaxEncodedLen 4000000000 = - 1" using b[rule_format, of 4000000000] by simp
  ultimately show ?thesis using a h1 h2 by blast
qed

text \<open>
  C3. Under the preconditions of \<open>encodeBlock\<close> (\<open>17 \<le> len(src) \<le> 65536\<close>, \<open>dst\<close> of at
  least \<open>MaxEncodedLen(len(src))\<close> bytes), the block returns, and its \<open>d\<close> bytes are a
  sequence of chunks in which every copy has an offset in \<open>[1, 65535]\<close> that is at most the
  number of bytes decoded before it and a length of at least 4 (\<open>copies_ok\<close>; a call of
  \<open>emitCopy\<close> with a length above 64 writes several such chunks with its offset); the first
  chunk is a literal, and the chunks decode to \<open>src\<close>.
\<close>

theorem encodeBlock_copies_valid:
  assumes "17 \<le> length src" and "length src \<le> 65536"
    and "MaxEncodedLen (int (length src)) \<le> int (length dst)"
  shows "\<exists>dst' d cs lit cs'. encodeBlock dst src = Some (Inr (dst', d))
     \<and> parse_chunks (take d dst') = Some cs
     \<and> copies_ok 0 cs
     \<and> cs = Literal lit # cs'
     \<and> apply_chunks cs [] = Some src"
proof -
  have cap: "length src + length src div 6 \<le> length dst" by (rule block_cap[OF assms(2,3)])
  from encodeBlock_ok[OF assms(1,2) cap] obtain dst' d where
    e: "encodeBlock dst src = Some (Inr (dst', d))"
    and oi: "out_inv src (length dst) dst' d (length src)" by blast
  from oi obtain cs where t: "take d dst' = ser cs" and em: "emitted cs src"
    by (auto simp: out_inv_def)
  have "src \<noteq> []" using assms(1) by auto
  from emitted_starts_literal[OF em this] obtain lit cs' where l: "cs = Literal lit # cs'"
    by blast
  have "parse_chunks (take d dst') = Some cs"
    unfolding t using em by (intro parse_ser) (simp add: emitted_def)
  moreover have "copies_ok 0 cs" "apply_chunks cs [] = Some src"
    using em by (simp_all add: emitted_def)
  ultimately show ?thesis using e l by blast
qed

theorem encodeBlock_copies_valid_witness:
  "17 \<le> length (replicate 17 (0 :: byte)) \<and> length (replicate 17 (0 :: byte)) \<le> 65536
   \<and> MaxEncodedLen (int (length (replicate 17 (0 :: byte))))
       \<le> int (length (replicate 51 (0 :: byte)))
   \<and> (\<exists>dst' d cs lit cs'.
        encodeBlock (replicate 51 0) (replicate 17 0) = Some (Inr (dst', d))
        \<and> parse_chunks (take d dst') = Some cs
        \<and> copies_ok 0 cs
        \<and> cs = Literal lit # cs'
        \<and> apply_chunks cs [] = Some (replicate 17 0))"
proof -
  have h1: "17 \<le> length (replicate 17 (0 :: byte))" by simp
  have h2: "length (replicate 17 (0 :: byte)) \<le> 65536" by simp
  have h3: "MaxEncodedLen (int (length (replicate 17 (0 :: byte))))
       \<le> int (length (replicate 51 (0 :: byte)))" by (simp add: MaxEncodedLen_def)
  show ?thesis using encodeBlock_copies_valid[OF h1 h2 h3] h1 h2 h3 by blast
qed

text \<open>
  C10. Under the preconditions of \<open>encodeBlock\<close>, the block returns without a panic: in
  the model every \<open>load32\<close>, \<open>load64\<close>, table access and write into \<open>dst\<close> outside its bounds
  is a panic, so none occurs, and \<open>dst\<close> keeps its length with \<open>d\<close> inside it. Every
  iteration of the search loop that stores into the table stores \<open>uint16(nextS)\<close> with
  \<open>nextS < 65536\<close>, and every iteration of the copy loop that stores into the table stores
  \<open>uint16(s - 1)\<close> and \<open>uint16(s)\<close> with \<open>s < 65536\<close>, so the stored words read back as the
  cursors.
\<close>

theorem encodeBlock_in_bounds:
  assumes "17 \<le> length src" and "length src \<le> 65536"
    and "MaxEncodedLen (int (length src)) \<le> int (length dst)"
  shows "(\<exists>dst' d. encodeBlock dst src = Some (Inr (dst', d))
      \<and> length dst' = length dst \<and> d \<le> length dst)
    \<and> (\<forall>shift table skip nextS nextHash table' a b c.
         searchStep src shift (int (length src) - int inputMargin) table skip nextS nextHash
           \<in> {Inr (SearchExit (SearchMatch table' a b c)), Inr (SearchNext table' a b c)}
         \<longrightarrow> table' = table[unat (nextHash AND tableMask) := of_nat nextS]
           \<and> nextS < 65536 \<and> unat (of_nat nextS :: u16) = nextS)
    \<and> (\<forall>shift out d table s candidate out' d' table' s' s2 h c'.
         copyStep src shift (int (length src) - int inputMargin) out d table s candidate
           \<in> {Inr (CopyExit (CopyBreak out' d' table' s' s2 h)), Inr (CopyNext out' d' table' s' c')}
         \<longrightarrow> (\<exists>i j. table' = table[i := of_nat (s' - 1), j := of_nat s'])
           \<and> s' < 65536 \<and> unat (of_nat (s' - 1) :: u16) = s' - 1
           \<and> unat (of_nat s' :: u16) = s')"
proof -
  have cap: "length src + length src div 6 \<le> length dst" by (rule block_cap[OF assms(2,3)])
  from encodeBlock_ok[OF assms(1,2) cap] obtain dst' d where
    e: "encodeBlock dst src = Some (Inr (dst', d))"
    and oi: "out_inv src (length dst) dst' d (length src)" by blast
  have a: "\<exists>dst' d. encodeBlock dst src = Some (Inr (dst', d))
      \<and> length dst' = length dst \<and> d \<le> length dst"
    using e oi by (auto simp: out_inv_def)
  have lim: "int (length src) - int inputMargin \<le> 65521"
    using assms(2) by (simp add: inputMargin_def)
  have b: "table' = table[unat (nextHash AND tableMask) := of_nat nextS]
           \<and> nextS < 65536 \<and> unat (of_nat nextS :: u16) = nextS"
    if "searchStep src shift (int (length src) - int inputMargin) table skip nextS nextHash
           \<in> {Inr (SearchExit (SearchMatch table' a b c)), Inr (SearchNext table' a b c)}"
    for shift table skip nextS nextHash table' a b c
  proof -
    from that obtain r where
      st: "searchStep src shift (int (length src) - int inputMargin) table skip nextS nextHash = Inr r"
      and r: "r = SearchExit (SearchMatch table' a b c) \<or> r = SearchNext table' a b c"
      by auto
    from searchStep_stores[OF st r lim] show ?thesis by (simp add: cursor_u16)
  qed
  have c: "(\<exists>i j. table' = table[i := of_nat (s' - 1), j := of_nat s'])
           \<and> s' < 65536 \<and> unat (of_nat (s' - 1) :: u16) = s' - 1
           \<and> unat (of_nat s' :: u16) = s'"
    if "copyStep src shift (int (length src) - int inputMargin) out d table s candidate
           \<in> {Inr (CopyExit (CopyBreak out' d' table' s' s2 h)), Inr (CopyNext out' d' table' s' c')}"
    for shift out d table s candidate out' d' table' s' s2 h c'
  proof -
    from that obtain r where
      st: "copyStep src shift (int (length src) - int inputMargin) out d table s candidate = Inr r"
      and r: "r = CopyExit (CopyBreak out' d' table' s' s2 h) \<or> r = CopyNext out' d' table' s' c'"
      by auto
    from copyStep_stores[OF st r lim] have
      x: "\<exists>i j. table' = table[i := of_nat (s' - 1), j := of_nat s']" and y: "s' < 65536"
      by blast+
    from y have "s' - 1 < 65536" by simp
    then show ?thesis using x y cursor_u16[of s'] cursor_u16[of "s' - 1"] by blast
  qed
  show ?thesis using a b c by blast
qed

theorem encodeBlock_in_bounds_witness:
  "17 \<le> length sample_block \<and> length sample_block \<le> 65536
   \<and> MaxEncodedLen (int (length sample_block)) \<le> int (length (replicate 71 (0 :: byte)))
   \<and> (\<exists>dst' d. encodeBlock (replicate 71 0) sample_block = Some (Inr (dst', d))
        \<and> length dst' = length (replicate 71 (0 :: byte))
        \<and> d \<le> length (replicate 71 (0 :: byte)))
   \<and> searchStep sample_block 24 (int (length sample_block) - int inputMargin)
         (replicate maxTableSize 0) 32 1 (hash 0x01040302 24)
       = Inr (SearchNext ((replicate maxTableSize 0)[unat (hash 0x01040302 24 AND tableMask) := 1])
                33 2 (hash 0x02010403 24))
   \<and> unat (of_nat 1 :: u16) = 1
   \<and> copyStep sample_block 24 (int (length sample_block) - int inputMargin)
         [0, 0, 0, 0, 0, 0, 0, 0] 0 (replicate maxTableSize 0) 4 0
       = Inr (CopyExit (CopyBreak [1, 4, 0, 0, 0, 0, 0, 0] 2
           ((replicate maxTableSize 0)[unat (hash 0x07060504 24 AND tableMask) := 7,
              unat (hash 0x08070605 24 AND tableMask) := 8]) 8 9 (hash 0x09080706 24)))
   \<and> unat (of_nat (8 - 1) :: u16) = 8 - 1 \<and> unat (of_nat 8 :: u16) = 8"
proof -
  have h1: "17 \<le> length sample_block" by (simp add: sample_block_def)
  have h2: "length sample_block \<le> 65536" by (simp add: sample_block_def)
  have h3: "MaxEncodedLen (int (length sample_block)) \<le> int (length (replicate 71 (0 :: byte)))"
    by (simp add: sample_block_def MaxEncodedLen_def)
  note t = encodeBlock_in_bounds[OF h1 h2 h3]
  from t have a: "\<exists>dst' d. encodeBlock (replicate 71 0) sample_block = Some (Inr (dst', d))
        \<and> length dst' = length (replicate 71 (0 :: byte))
        \<and> d \<le> length (replicate 71 (0 :: byte))" by (rule conjunct1)
  have s: "searchStep sample_block 24 (int (length sample_block) - int inputMargin)
         (replicate maxTableSize 0) 32 1 (hash 0x01040302 24)
       = Inr (SearchNext ((replicate maxTableSize 0)[unat (hash 0x01040302 24 AND tableMask) := 1])
                33 2 (hash 0x02010403 24))"
    by (simp add: sample_block_def searchStep_def Let_def fetch_def store_def load32_def hash_def
        tableMask_def maxTableSize_def inputMargin_def)
  have c: "copyStep sample_block 24 (int (length sample_block) - int inputMargin)
         [0, 0, 0, 0, 0, 0, 0, 0] 0 (replicate maxTableSize 0) 4 0
       = Inr (CopyExit (CopyBreak [1, 4, 0, 0, 0, 0, 0, 0] 2
           ((replicate maxTableSize 0)[unat (hash 0x07060504 24 AND tableMask) := 7,
              unat (hash 0x08070605 24 AND tableMask) := 8]) 8 9 (hash 0x09080706 24)))"
    by (simp add: sample_block_def copyStep_def Let_def fetch_def store_def load32_def load64_def
        hash_def tableMask_def maxTableSize_def extendMatch.simps emitCopy_at_def emitCopy_def
        emitCopy_loop.simps tail_of_def put_tail_def tagCopy1_def tagCopy2_def inputMargin_def)
  have sm: "searchStep sample_block 24 (int (length sample_block) - int inputMargin)
         (replicate maxTableSize 0) 32 1 (hash 0x01040302 24)
       \<in> {Inr (SearchExit (SearchMatch
               ((replicate maxTableSize 0)[unat (hash 0x01040302 24 AND tableMask) := 1])
               33 2 (hash 0x02010403 24))),
            Inr (SearchNext
               ((replicate maxTableSize 0)[unat (hash 0x01040302 24 AND tableMask) := 1])
               33 2 (hash 0x02010403 24))}"
    unfolding s by simp
  have cm: "copyStep sample_block 24 (int (length sample_block) - int inputMargin)
         [0, 0, 0, 0, 0, 0, 0, 0] 0 (replicate maxTableSize 0) 4 0
       \<in> {Inr (CopyExit (CopyBreak [1, 4, 0, 0, 0, 0, 0, 0] 2
               ((replicate maxTableSize 0)[unat (hash 0x07060504 24 AND tableMask) := 7,
                  unat (hash 0x08070605 24 AND tableMask) := 8]) 8 9 (hash 0x09080706 24))),
            Inr (CopyNext [1, 4, 0, 0, 0, 0, 0, 0] 2
               ((replicate maxTableSize 0)[unat (hash 0x07060504 24 AND tableMask) := 7,
                  unat (hash 0x08070605 24 AND tableMask) := 8]) 8 0)}"
    unfolding c by simp
  from t have ts: "\<forall>shift table skip nextS nextHash table' a b c.
         searchStep sample_block shift (int (length sample_block) - int inputMargin) table skip
             nextS nextHash
           \<in> {Inr (SearchExit (SearchMatch table' a b c)), Inr (SearchNext table' a b c)}
         \<longrightarrow> table' = table[unat (nextHash AND tableMask) := of_nat nextS]
           \<and> nextS < 65536 \<and> unat (of_nat nextS :: u16) = nextS"
    by (rule conjunct2[THEN conjunct1])
  from t have tc: "\<forall>shift out d table s candidate out' d' table' s' s2 h c'.
         copyStep sample_block shift (int (length sample_block) - int inputMargin) out d table s
             candidate
           \<in> {Inr (CopyExit (CopyBreak out' d' table' s' s2 h)), Inr (CopyNext out' d' table' s' c')}
         \<longrightarrow> (\<exists>i j. table' = table[i := of_nat (s' - 1), j := of_nat s'])
           \<and> s' < 65536 \<and> unat (of_nat (s' - 1) :: u16) = s' - 1
           \<and> unat (of_nat s' :: u16) = s'"
    by (rule conjunct2[THEN conjunct2])
  from ts[rule_format, OF sm] have "unat (of_nat 1 :: u16) = 1" by (elim conjE)
  moreover from tc[rule_format, OF cm]
  have "unat (of_nat (8 - 1) :: u16) = 8 - 1 \<and> unat (of_nat 8 :: u16) = 8"
    by (elim conjE) (rule conjI)
  ultimately show ?thesis using a s c h1 h2 h3 by blast
qed

section \<open>The chunk header and the output buffer\<close>

lemma length_magicChunk: "length magicChunk = 10"
  by (simp add: magicChunk_def)

lemma obufHeaderLen_18: "obufHeaderLen = 18"
  by (simp add: obufHeaderLen_def length_magicChunk)

lemma obufLen_76508: "obufLen = 76508"
  by (simp add: obufLen_def obufHeaderLen_18 maxEncodedLenOfMaxBlockSize_def)

lemma store_splice:
  "j = i + length bs \<Longrightarrow> j < length xs \<Longrightarrow>
   store (splice xs i bs) j a = Inr (splice xs i (bs @ [a]))"
proof -
  assume j: "j = i + length bs" and l: "j < length xs"
  have f: "i + length bs \<le> length xs" using j l by simp
  have "store (splice xs i bs) j a = Inr ((splice xs i bs)[j := a])"
    using l f by (simp add: store_def)
  also have "(splice xs i bs)[j := a] = splice (splice xs i bs) j [a]"
    using l f by (intro upd1) simp
  also have "\<dots> = splice xs i (bs @ [a])"
    using f j by (intro splice_splice) simp_all
  finally show ?thesis .
qed

lemma fill_header_ok:
  assumes "18 \<le> length b"
  shows "fill_header b ct n c =
    Inr (splice b 10 [ct, of_nat n, of_nat (drop_bit 8 n), of_nat (drop_bit 16 n),
          ucast c, ucast (drop_bit 8 c), ucast (drop_bit 16 c), ucast (drop_bit 24 c)])"
proof -
  have s0: "store b 10 ct = Inr (splice b 10 [ct])"
    using assms store_splice[of 10 10 "[]" b ct] by simp
  show ?thesis
    unfolding fill_header_def length_magicChunk
    using assms by (simp add: s0 store_splice del: store_Inr)
qed

lemma base256_digits:
  fixes n :: nat
  shows "n mod 256 + 256 * (n div 256 mod 256 + 256 * (n div 256 div 256)) = n"
  by (simp only: mod_mult_div_eq)

lemma le_nat_digits:
  assumes "m0 = n mod 256" "m1 = n div 256 mod 256" "m2 = n div 256 div 256 mod 256"
    "m3 = n div 256 div 256 div 256" "m3 < 256"
  shows "le_nat [of_nat m0, of_nat m1, of_nat m2, of_nat m3] = n"
proof -
  have a: "unat (of_nat (k mod 256) :: byte) = k mod 256" for k
    by (intro unat_of_nat_byte) simp
  have "le_nat [of_nat m0, of_nat m1, of_nat m2, of_nat m3 :: byte]
     = n mod 256 + 256 * (n div 256 mod 256 + 256 * (n div 256 div 256 mod 256
          + 256 * (m3 + 256 * 0)))"
    unfolding assms(1,2,3) le_nat.simps a unat_of_nat_byte[OF assms(5)] ..
  also have "\<dots> = n mod 256 + 256 * (n div 256 mod 256 + 256 * (n div 256 div 256 mod 256
          + 256 * (n div 256 div 256 div 256)))"
    unfolding assms(4) by simp
  also have "\<dots> = n mod 256 + 256 * (n div 256 mod 256 + 256 * (n div 256 div 256))"
    using base256_digits[of "n div 256 div 256"] by simp
  also have "\<dots> = n" by (rule base256_digits)
  finally show ?thesis .
qed

lemma le_nat_3:
  assumes "n < 16777216"
  shows "le_nat [of_nat n, of_nat (drop_bit 8 n), of_nat (drop_bit 16 n)] = n"
proof -
  have b: "(of_nat k :: byte) = of_nat (k mod 256)" for k by (simp add: of_nat_mod_256)
  have d: "drop_bit 8 n = n div 256" "drop_bit 16 n = n div 256 div 256"
    by (simp_all add: drop_bit_eq_div div_mult2_eq)
  have z: "n div 256 div 256 div 256 = 0" using assms by (simp add: div_mult2_eq)
  have "le_nat [of_nat (n mod 256), of_nat (n div 256 mod 256),
          of_nat (n div 256 div 256 mod 256), of_nat (n div 256 div 256 div 256) :: byte] = n"
    by (rule le_nat_digits[OF refl refl refl refl]) (simp add: z)
  then have "le_nat [of_nat (n mod 256), of_nat (n div 256 mod 256),
          of_nat (n div 256 div 256 mod 256) :: byte] = n"
    unfolding z by simp
  then show ?thesis unfolding d b[of n] b[of "n div 256"] b[of "n div 256 div 256"] .
qed

lemma le_nat_u32:
  fixes c :: u32
  shows "le_nat [ucast c, ucast (drop_bit 8 c), ucast (drop_bit 16 c), ucast (drop_bit 24 c)] = unat c"
proof -
  define n where "n = unat c"
  have n: "n < 4294967296" unfolding n_def using unsigned_less[of c] by simp
  have u: "(ucast (drop_bit k c) :: byte) = of_nat (n div 2 ^ k mod 256)" for k
  proof -
    have "unat (ucast (drop_bit k c) :: byte) = take_bit 8 (drop_bit k (unat c))"
      by (simp only: unsigned_ucast_eq unat_drop_bit_eq) simp
    then have h: "unat (ucast (drop_bit k c) :: byte) = n div 2 ^ k mod 256"
      by (simp add: take_bit_eq_mod drop_bit_eq_div n_def)
    show ?thesis unfolding h[symmetric] by simp
  qed
  have u0: "(ucast c :: byte) = of_nat (n mod 256)"
    using u[of 0] by simp
  have d: "n div 2 ^ 8 = n div 256" "n div 2 ^ 16 = n div 256 div 256"
    "n div 2 ^ 24 = n div 256 div 256 div 256"
    by (simp_all add: div_mult2_eq)
  have s: "n div 256 div 256 div 256 < 256" using n by (simp add: div_mult2_eq)
  then have m: "n div 256 div 256 div 256 mod 256 = n div 256 div 256 div 256" by simp
  show ?thesis
    unfolding u u0 d m n_def[symmetric]
    by (rule le_nat_digits[OF refl refl refl refl s])
qed

lemma MaxEncodedLen_block:
  assumes "length u \<le> 65536"
  shows "0 \<le> MaxEncodedLen (int (length u))"
    "MaxEncodedLen (int (length u)) \<le> 76490"
proof -
  have "MaxEncodedLen (int (length u)) = 32 + int (length u) + int (length u) div 6"
    using assms by (subst MaxEncodedLen_cases) simp_all
  then show "0 \<le> MaxEncodedLen (int (length u))" "MaxEncodedLen (int (length u)) \<le> 76490"
    using assms by simp_all
qed

lemma write_block_ok:
  assumes lo: "length (obuf wr) = obufLen" and lu: "length u \<le> 65536"
  shows "\<exists>dst' compressed.
     Encode (drop obufHeaderLen (obuf wr)) u = Some (Inr (dst', compressed))
   \<and> length dst' = maxEncodedLenOfMaxBlockSize
   \<and> int (length compressed) \<le> MaxEncodedLen (int (length u))
   \<and> write_block wr u = Some (Inr (send_chunk
        (wr\<lparr>wroteStreamHeader := True,
            obuf := (if wroteStreamHeader wr then take 10 (obuf wr) else magicChunk)
              @ chunk_header
                  (if length compressed \<ge> length u - length u div 8
                   then chunkTypeUncompressedData else chunkTypeCompressedData)
                  (if length compressed \<ge> length u - length u div 8
                   then 4 + length u else 4 + length compressed) (crc u)
              @ dst'\<rparr>)
        ((if wroteStreamHeader wr then [] else magicChunk)
           @ chunk_header
               (if length compressed \<ge> length u - length u div 8
                then chunkTypeUncompressedData else chunkTypeCompressedData)
               (if length compressed \<ge> length u - length u div 8
                then 4 + length u else 4 + length compressed) (crc u)
           @ (if length compressed \<ge> length u - length u div 8 then [] else compressed))
        (if length compressed \<ge> length u - length u div 8
         then chunkTypeUncompressedData else chunkTypeCompressedData) u))"
proof -
  define wr1 where "wr1 = (if \<not> wroteStreamHeader wr
            then wr\<lparr>wroteStreamHeader := True, obuf := fst (go_copy (obuf wr) magicChunk)\<rparr>
            else wr)"
  define P where "P = (if wroteStreamHeader wr then take 10 (obuf wr) else magicChunk)"
  have L: "length (obuf wr) = 76508" using lo by (simp add: obufLen_76508)
  have o1: "obuf wr1 = P @ drop 10 (obuf wr)"
    using L by (simp add: wr1_def P_def go_copy_def length_magicChunk)
  have lP: "length P = 10" using L by (simp add: P_def length_magicChunk)
  have w1: "wroteStreamHeader wr1" by (simp add: wr1_def)
  have t: "tail_of (obuf wr1) obufHeaderLen = Inr (drop 18 (obuf wr))"
    using L lP by (simp add: tail_of_def obufHeaderLen_18 o1)
  have lt: "length (drop 18 (obuf wr)) = 76490" using L by simp
  have n: "length u \<le> 4294967295" using lu by simp
  have nf: "\<not> int (length (drop 18 (obuf wr))) < MaxEncodedLen (int (length u))"
    using MaxEncodedLen_block(2)[OF lu] lt by simp
  from Encode_ok[OF n MaxEncodedLen_block(1)[OF lu], of "drop 18 (obuf wr)"] nf
  obtain dst' compressed where
    enc: "Encode (drop 18 (obuf wr)) u = Some (Inr (dst', compressed))"
    and lc: "int (length compressed) \<le> MaxEncodedLen (int (length u))"
    and ld: "length dst' = length (drop 18 (obuf wr))"
    and tk: "take (length compressed) dst' = compressed"
    by (auto split: if_splits)
  define raw where "raw = (length compressed \<ge> length u - length u div 8)"
  define ct where "ct = (if raw then chunkTypeUncompressedData else chunkTypeCompressedData)"
  define cl where "cl = (if raw then 4 + length u else 4 + length compressed)"
  define hdr where "hdr = chunk_header ct cl (crc u)"
  have lh: "length hdr = 8" by (simp add: hdr_def chunk_header_def)
  define o2 where "o2 = put_tail (obuf wr1) obufHeaderLen dst'"
  have o2: "o2 = P @ take 8 (drop 10 (obuf wr)) @ dst'"
    using lP L by (simp add: o2_def put_tail_def obufHeaderLen_18 o1)
  have lo2: "18 \<le> length o2" using lP L by (simp add: o2)
  define B where "B = P @ hdr @ dst'"
  have "fill_header o2 ct cl (crc u) = Inr (splice o2 10 hdr)"
    unfolding hdr_def chunk_header_def by (rule fill_header_ok[OF lo2])
  moreover have "splice o2 10 hdr = B"
    using lP L lh by (simp add: splice_def o2 B_def)
  ultimately have fh: "fill_header o2 ct cl (crc u) = Inr B" by simp
  define out where "out = (if wroteStreamHeader wr then [] else magicChunk) @ hdr
      @ (if raw then [] else compressed)"
  have lcd: "length compressed \<le> length dst'"
    using lc MaxEncodedLen_block(2)[OF lu] ld lt by simp
  have sl: "slice B (if \<not> wroteStreamHeader wr then 0 else length magicChunk)
       (if raw then obufHeaderLen else obufHeaderLen + length compressed) = Inr out"
    using lP lh lcd tk
    by (simp add: slice_def B_def out_def obufHeaderLen_18 length_magicChunk P_def)
  have wb: "write_block wr u = Some (Inr (send_chunk (wr1\<lparr>obuf := B\<rparr>) out ct u))"
    unfolding write_block_def Let_def wr1_def[symmetric]
    using t enc fh sl
    by (simp add: obufHeaderLen_18 raw_def[symmetric] ct_def[symmetric] cl_def[symmetric]
        o2_def[symmetric, unfolded obufHeaderLen_18])
  have r: "wr1\<lparr>obuf := B\<rparr> = wr\<lparr>wroteStreamHeader := True, obuf := B\<rparr>"
    by (cases wr) (simp add: wr1_def)
  show ?thesis
    apply (rule exI[of _ dst'])
    apply (rule exI[of _ compressed])
    using enc lc ld lt wb[unfolded r]
    unfolding B_def out_def hdr_def ct_def cl_def raw_def P_def
    by (simp add: obufHeaderLen_18 maxEncodedLenOfMaxBlockSize_def)
qed

section \<open>The chunk of a round\<close>

text \<open>
  C7. A round of \<open>Writer.write\<close> on a block \<open>u\<close> of at most 65536 bytes, by a writer whose
  output buffer has the \<open>obufLen\<close> bytes the constructors give it, returns, and hands the
  sink one data chunk (after the magic chunk, if this is the first round): with
  \<open>compressed\<close> the result of \<open>Encode\<close> on \<open>u\<close>, the chunk type is \<open>0x00\<close> and the payload
  after the checksum is \<open>compressed\<close> if \<open>len(compressed) < len(u) - len(u) / 8\<close>; otherwise
  the type is \<open>0x01\<close> and the payload is \<open>u\<close>, sent in a second call unless the sink refused
  the first. In both cases the three bytes after the type are \<open>4 + len(payload)\<close> in little
  endian and the next four are \<open>crc(u)\<close> in little endian. The output buffer keeps its
  length.
\<close>

theorem write_block_chunk:
  assumes "length (obuf wr) = obufLen" and "length u \<le> 65536"
  shows "\<exists>wr' r dst' compressed hdr.
      write_block wr u = Some (Inr (wr', r))
    \<and> Encode (drop obufHeaderLen (obuf wr)) u = Some (Inr (dst', compressed))
    \<and> length hdr = 8
    \<and> hdr ! 0 = (if length compressed < length u - length u div 8 then 0x00 else 0x01)
    \<and> le_nat (take 3 (drop 1 hdr))
        = 4 + length (if length compressed < length u - length u div 8 then compressed else u)
    \<and> le_nat (drop 4 hdr) = unat (crc u)
    \<and> calls (w wr') = calls (w wr) @
        (if length compressed < length u - length u div 8
         then [(if wroteStreamHeader wr then [] else magicChunk) @ hdr @ compressed]
         else if respond (w wr) (calls (w wr))
                   ((if wroteStreamHeader wr then [] else magicChunk) @ hdr) = None
              then [(if wroteStreamHeader wr then [] else magicChunk) @ hdr, u]
              else [(if wroteStreamHeader wr then [] else magicChunk) @ hdr])
    \<and> length (obuf wr') = obufLen"
proof -
  from write_block_ok[OF assms] obtain dst' compressed where
    enc: "Encode (drop obufHeaderLen (obuf wr)) u = Some (Inr (dst', compressed))"
    and ld: "length dst' = maxEncodedLenOfMaxBlockSize"
    and lc: "int (length compressed) \<le> MaxEncodedLen (int (length u))"
    and wb: "write_block wr u = Some (Inr (send_chunk
        (wr\<lparr>wroteStreamHeader := True,
            obuf := (if wroteStreamHeader wr then take 10 (obuf wr) else magicChunk)
              @ chunk_header
                  (if length compressed \<ge> length u - length u div 8
                   then chunkTypeUncompressedData else chunkTypeCompressedData)
                  (if length compressed \<ge> length u - length u div 8
                   then 4 + length u else 4 + length compressed) (crc u)
              @ dst'\<rparr>)
        ((if wroteStreamHeader wr then [] else magicChunk)
           @ chunk_header
               (if length compressed \<ge> length u - length u div 8
                then chunkTypeUncompressedData else chunkTypeCompressedData)
               (if length compressed \<ge> length u - length u div 8
                then 4 + length u else 4 + length compressed) (crc u)
           @ (if length compressed \<ge> length u - length u div 8 then [] else compressed))
        (if length compressed \<ge> length u - length u div 8
         then chunkTypeUncompressedData else chunkTypeCompressedData) u))"
    by blast
  define raw where "raw = (length compressed \<ge> length u - length u div 8)"
  define ct where "ct = (if raw then chunkTypeUncompressedData else chunkTypeCompressedData)"
  define cl where "cl = (if raw then 4 + length u else 4 + length compressed)"
  define hdr where "hdr = chunk_header ct cl (crc u)"
  define pre where "pre = (if wroteStreamHeader wr then [] else magicChunk)"
  define X where "X = wr\<lparr>wroteStreamHeader := True,
            obuf := (if wroteStreamHeader wr then take 10 (obuf wr) else magicChunk) @ hdr @ dst'\<rparr>"
  define out where "out = pre @ hdr @ (if raw then [] else compressed)"
  note wb' = wb[folded raw_def, folded ct_def cl_def, folded hdr_def, folded X_def pre_def,
      folded out_def]
  obtain wr' r where sc: "send_chunk X out ct u = (wr', r)" by force
  have wbr: "write_block wr u = Some (Inr (wr', r))" using wb' sc by simp
  have lh: "length hdr = 8" by (simp add: hdr_def chunk_header_def)
  have h0: "hdr ! 0 = (if raw then 0x01 else 0x00)"
    by (simp add: hdr_def chunk_header_def ct_def chunkTypeUncompressedData_def
        chunkTypeCompressedData_def)
  have lcc: "length compressed \<le> 76490"
    using lc MaxEncodedLen_block(2)[OF assms(2)] by simp
  have cl: "cl < 16777216" using lcc assms(2) by (simp add: cl_def)
  have h1: "le_nat (take 3 (drop 1 hdr)) = cl"
    using le_nat_3[OF cl] by (simp add: hdr_def chunk_header_def)
  have h4: "le_nat (drop 4 hdr) = unat (crc u)"
    using le_nat_u32[of "crc u"] by (simp add: hdr_def chunk_header_def)
  have L: "length (obuf wr) = 76508" using assms(1) by (simp add: obufLen_76508)
  have lX: "length (obuf X) = obufLen"
    using L lh ld
    by (simp add: X_def obufLen_76508 length_magicChunk maxEncodedLenOfMaxBlockSize_def)
  have wX: "w X = w wr" by (simp add: X_def)
  note f = send_chunk_facts[OF sc, unfolded wX]
  have lo': "length (obuf wr') = obufLen" using f lX by simp
  have ctu: "(ct = chunkTypeUncompressedData) = raw"
    by (simp add: ct_def chunkTypeUncompressedData_def chunkTypeCompressedData_def)
  have cs: "calls (w wr') = calls (w wr) @
        (if \<not> raw then [pre @ hdr @ compressed]
         else if respond (w wr) (calls (w wr)) (pre @ hdr) = None
              then [pre @ hdr, u] else [pre @ hdr])"
    using f unfolding ctu out_def by (cases raw) auto
  have nr: "(length compressed < length u - length u div 8) = (\<not> raw)"
    by (auto simp: raw_def)
  show ?thesis
    apply (rule exI[of _ wr'])
    apply (rule exI[of _ r])
    apply (rule exI[of _ dst'])
    apply (rule exI[of _ compressed])
    apply (rule exI[of _ hdr])
    unfolding nr pre_def[symmetric]
    using wbr enc lh h0 h1 h4 cs lo' by (simp add: cl_def)
qed

theorem write_block_chunk_witness:
  "length (obuf (NewWriter quiet_sink)) = obufLen \<and> length [0x61 :: byte] \<le> 65536
   \<and> (\<exists>wr' r dst' compressed hdr.
      write_block (NewWriter quiet_sink) [0x61] = Some (Inr (wr', r))
    \<and> Encode (drop obufHeaderLen (obuf (NewWriter quiet_sink))) [0x61]
        = Some (Inr (dst', compressed))
    \<and> length hdr = 8
    \<and> hdr ! 0 = (if length compressed < length [0x61 :: byte] - length [0x61 :: byte] div 8
                 then 0x00 else 0x01)
    \<and> le_nat (take 3 (drop 1 hdr))
        = 4 + length (if length compressed < length [0x61 :: byte] - length [0x61 :: byte] div 8
                      then compressed else [0x61])
    \<and> le_nat (drop 4 hdr) = unat (crc [0x61])
    \<and> calls (w wr') = calls (w (NewWriter quiet_sink)) @
        (if length compressed < length [0x61 :: byte] - length [0x61 :: byte] div 8
         then [(if wroteStreamHeader (NewWriter quiet_sink) then [] else magicChunk)
                 @ hdr @ compressed]
         else if respond (w (NewWriter quiet_sink)) (calls (w (NewWriter quiet_sink)))
                   ((if wroteStreamHeader (NewWriter quiet_sink) then [] else magicChunk) @ hdr)
                   = None
              then [(if wroteStreamHeader (NewWriter quiet_sink) then [] else magicChunk) @ hdr,
                    [0x61]]
              else [(if wroteStreamHeader (NewWriter quiet_sink) then [] else magicChunk) @ hdr])
    \<and> length (obuf wr') = obufLen)"
proof -
  have h1: "length (obuf (NewWriter quiet_sink)) = obufLen" by (simp add: NewWriter_def)
  have h2: "length [0x61 :: byte] \<le> 65536" by simp
  show ?thesis using write_block_chunk[OF h1 h2] h1 h2 by blast
qed

section \<open>Latched errors\<close>

lemma latched_returns:
  assumes "err wr = Some e"
  shows "Writer_Write wr p = Some (Inr (wr, 0, Some e))"
    "Flush wr = Some (Inr (wr, Some e))"
    "Close wr = Some (Inr (wr, Some e))"
proof -
  show f: "Flush wr = Some (Inr (wr, Some e))" using assms by (simp add: Flush_def)
  show "Close wr = Some (Inr (wr, Some e))" using assms by (simp add: Close_def f)
  have l: "Write_loop wr p 0 = Some (Inr (wr, p, 0))"
    using assms by (subst Write_loop.simps) simp
  show "Writer_Write wr p = Some (Inr (wr, 0, Some e))"
    using assms by (simp add: Writer_Write_def Writer_write_def l)
qed

lemma Writer_write_err:
  assumes "Writer_write wr p = Some (Inr (wr', n, r))"
  shows "err wr' = r \<and> ibuf wr' = ibuf wr \<and> n \<le> length p"
proof (cases "err wr")
  case None
  then have "write_loop wr p 0 = Some (Inr (wr', n, r))"
    using assms by (simp add: Writer_write_def)
  from write_loop_facts[OF this] None show ?thesis by simp
next
  case (Some e)
  then show ?thesis using assms by (auto simp: Writer_write_def)
qed

lemma Writer_Write_err:
  assumes "Writer_Write wr p = Some (Inr (wr', n, r))"
  shows "err wr' = r"
proof (cases "ibuf wr = None")
  case True
  then have "Writer_write wr p = Some (Inr (wr', n, r))"
    using assms by (simp add: Writer_Write_def)
  from Writer_write_err[OF this] show ?thesis by simp
next
  case False
  with assms obtain x where lx: "Write_loop wr p 0 = Some (Inr x)"
    by (cases "Write_loop wr p 0") (auto simp: Writer_Write_def split: sum.splits)
  obtain wr1 p1 n1 where x: "x = (wr1, p1, n1)" by (cases x) auto
  show ?thesis
  proof (cases "err wr1")
    case None
    then show ?thesis using assms False lx x
      by (auto simp: Writer_Write_def ibuf_append_def Let_def)
  next
    case (Some e)
    then show ?thesis using assms False lx x by (auto simp: Writer_Write_def)
  qed
qed

lemma Flush_err:
  assumes "Flush wr = Some (Inr (wr', r))"
  shows "err wr' = r"
proof (cases "err wr")
  case (Some e)
  then show ?thesis using assms by (auto simp: Flush_def)
next
  case None
  show ?thesis
  proof (cases "ibuf_len wr = 0")
    case True
    then show ?thesis using assms None by (auto simp: Flush_def)
  next
    case False
    then show ?thesis using assms None
      by (cases "Writer_write wr (case ibuf wr of None \<Rightarrow> [] | Some b \<Rightarrow> b)")
        (auto simp: Flush_def Let_def split: sum.splits)
  qed
qed

lemma Close_err:
  assumes "Close wr = Some (Inr (wr', r))"
  shows "(\<exists>wrf. Flush wr = Some (Inr (wrf, r)))
     \<and> err wr' = (if r = None then Some errClosed else r)"
proof -
  from assms obtain wrf e where f: "Flush wr = Some (Inr (wrf, e))"
    by (cases "Flush wr") (auto simp: Close_def split: sum.splits)
  have e: "err wrf = e" by (rule Flush_err[OF f])
  show ?thesis using assms f e by (auto simp: Close_def Let_def)
qed

lemma sink_trace_iff:
  "sink_trace k cs r \<longleftrightarrow>
     (\<exists>new. cs = calls k @ new \<and> (new = [] \<longrightarrow> r = None)
        \<and> (\<forall>i<length new. respond k (calls k @ take i new) (new ! i)
               = (if Suc i = length new then r else None)))"
proof
  assume a: "sink_trace k cs r"
  define new where "new = drop (length (calls k)) cs"
  have "cs = take (length (calls k)) cs @ new" by (simp add: new_def)
  then have "cs = calls k @ new" using a by (simp add: sink_trace_def)
  moreover have "(new = [] \<longrightarrow> r = None)
        \<and> (\<forall>i<length new. respond k (calls k @ take i new) (new ! i)
               = (if Suc i = length new then r else None))"
    using a unfolding sink_trace_def Let_def new_def[symmetric] list_all_iff by simp
  ultimately show "\<exists>new. cs = calls k @ new \<and> (new = [] \<longrightarrow> r = None)
        \<and> (\<forall>i<length new. respond k (calls k @ take i new) (new ! i)
               = (if Suc i = length new then r else None))" by blast
next
  assume "\<exists>new. cs = calls k @ new \<and> (new = [] \<longrightarrow> r = None)
        \<and> (\<forall>i<length new. respond k (calls k @ take i new) (new ! i)
               = (if Suc i = length new then r else None))"
  then obtain new where c: "cs = calls k @ new" and e: "new = [] \<longrightarrow> r = None"
    and a: "\<forall>i<length new. respond k (calls k @ take i new) (new ! i)
               = (if Suc i = length new then r else None)" by blast
  show "sink_trace k cs r"
    unfolding sink_trace_def Let_def list_all_iff using c e a by simp
qed

lemma sink_trace_refl: "sink_trace k (calls k) None"
  by (simp add: sink_trace_iff)

lemma sink_trace_trans:
  assumes rs: "respond k1 = respond k"
    and t1: "sink_trace k (calls k1) None" and t2: "sink_trace k1 cs r"
  shows "sink_trace k cs r"
proof -
  from t1 obtain n1 where c1: "calls k1 = calls k @ n1"
    and a1: "\<forall>i<length n1. respond k (calls k @ take i n1) (n1 ! i) = None"
    by (auto simp: sink_trace_iff)
  from t2 obtain n2 where c2: "cs = calls k1 @ n2" and e2: "n2 = [] \<longrightarrow> r = None"
    and a2: "\<forall>j<length n2. respond k1 (calls k1 @ take j n2) (n2 ! j)
               = (if Suc j = length n2 then r else None)"
    by (auto simp: sink_trace_iff)
  have "respond k (calls k @ take i (n1 @ n2)) ((n1 @ n2) ! i)
               = (if Suc i = length (n1 @ n2) then r else None)" if i: "i < length (n1 @ n2)" for i
  proof (cases "i < length n1")
    case True
    then have "respond k (calls k @ take i (n1 @ n2)) ((n1 @ n2) ! i) = None"
      using a1 by (simp add: nth_append)
    moreover have "Suc i = length (n1 @ n2) \<longrightarrow> r = None" using True e2 by (cases n2) auto
    ultimately show ?thesis by simp
  next
    case False
    define j where "j = i - length n1"
    have j: "j < length n2" "i = length n1 + j" using False i by (simp_all add: j_def)
    have "respond k (calls k @ take i (n1 @ n2)) ((n1 @ n2) ! i)
        = respond k1 (calls k1 @ take j n2) (n2 ! j)"
      using j by (simp add: rs c1 nth_append)
    then show ?thesis using a2 j by simp
  qed
  moreover have "cs = calls k @ (n1 @ n2)" using c1 c2 by simp
  moreover have "n1 @ n2 = [] \<longrightarrow> r = None" using e2 by simp
  ultimately show ?thesis unfolding sink_trace_iff by blast
qed

lemma write_block_trace:
  assumes "write_block wr u = Some (Inr (wr', r))"
  shows "respond (w wr') = respond (w wr) \<and> sink_trace (w wr) (calls (w wr')) r"
proof -
  note f = write_block_Inr[OF assms]
  from f have rs: "respond (w wr') = respond (w wr)" by simp
  from f consider a where "calls (w wr') = calls (w wr) @ [a]"
      "r = respond (w wr) (calls (w wr)) a"
    | a where "calls (w wr') = calls (w wr) @ [a, u]" "respond (w wr) (calls (w wr)) a = None"
      "r = respond (w wr) (calls (w wr) @ [a]) u" by blast
  then have "sink_trace (w wr) (calls (w wr')) r"
  proof cases
    case 1
    then show ?thesis unfolding sink_trace_iff
      by (intro exI[of _ "[a]"]) simp
  next
    case 2
    have "respond (w wr) (calls (w wr) @ take i [a, u]) ([a, u] ! i)
        = (if Suc i = length [a, u] then r else None)" if "i < length [a, u]" for i
    proof -
      from that have "i = 0 \<or> i = 1" by auto
      then show ?thesis using 2 by auto
    qed
    then show ?thesis unfolding sink_trace_iff using 2(1)
      by (intro exI[of _ "[a, u]"]) simp
  qed
  with rs show ?thesis by simp
qed

lemma write_loop_trace:
  "write_loop wr p n = Some (Inr (wr', n', r)) \<Longrightarrow>
   respond (w wr') = respond (w wr) \<and> sink_trace (w wr) (calls (w wr')) r"
proof (induction wr p n rule: write_loop.induct)
  case (1 wr p nRet)
  show ?case
  proof (cases "length p > 0")
    case False
    then have "wr' = wr" "r = None" using "1.prems" by (subst (asm) write_loop.simps, auto)+
    then show ?thesis by (simp add: sink_trace_refl)
  next
    case True
    define u where "u = (if length p > maxBlockSize then take maxBlockSize p else p)"
    define p' where "p' = (if length p > maxBlockSize then drop maxBlockSize p else [])"
    note wl = "1.prems"[unfolded write_loop.simps[of wr p nRet] Let_def, folded u_def p'_def]
    from wl True obtain wr1 r1 where wb: "write_block wr u = Some (Inr (wr1, r1))"
      by (cases "write_block wr u") (auto split: sum.splits)
    note t1 = write_block_trace[OF wb]
    show ?thesis
    proof (cases r1)
      case (Some er)
      then have "wr' = wr1" "r = Some er" using wl True wb by auto
      then show ?thesis using t1 Some by simp
    next
      case None
      then have rec: "write_loop wr1 p' (nRet + length u) = Some (Inr (wr', n', r))"
        using wl True wb by simp
      note t2 = "1.IH"[OF True u_def p'_def wb refl refl None rec]
      from t1 have a: "respond (w wr1) = respond (w wr)" by (rule conjunct1)
      from t1 have b: "sink_trace (w wr) (calls (w wr1)) None"
        unfolding None by (rule conjunct2)
      from t2 have c: "respond (w wr') = respond (w wr1)" by (rule conjunct1)
      from t2 have d: "sink_trace (w wr1) (calls (w wr')) r" by (rule conjunct2)
      have "sink_trace (w wr) (calls (w wr')) r" by (rule sink_trace_trans[OF a b d])
      moreover have "respond (w wr') = respond (w wr)" unfolding c a ..
      ultimately show ?thesis by (rule conjI[rotated])
    qed
  qed
qed

lemma Writer_write_trace:
  assumes "err wr = None" "Writer_write wr p = Some (Inr (wr', n, r))"
  shows "respond (w wr') = respond (w wr) \<and> sink_trace (w wr) (calls (w wr')) r"
  using assms write_loop_trace[of wr p 0 wr' n r] by (simp add: Writer_write_def)

lemma Flush_empty:
  assumes "err wr = None" "ibuf_len wr = 0"
  shows "Flush wr = Some (Inr (wr, None))"
  using assms by (simp add: Flush_def)

lemma Flush_nonempty:
  assumes e: "err wr = None" and b: "ibuf wr = Some full" and ne: "full \<noteq> []"
  shows "Flush wr =
    (case Writer_write wr full of
       None \<Rightarrow> None
     | Some (Inl pe) \<Rightarrow> Some (Inl pe)
     | Some (Inr (wr', n, r)) \<Rightarrow> Some (Inr (wr'\<lparr>ibuf := Some []\<rparr>, r)))"
proof (cases "Writer_write wr full")
  case None
  then show ?thesis using e b ne by (simp add: Flush_def ibuf_len_def)
next
  case (Some x)
  show ?thesis
  proof (cases x)
    case (Inl pe)
    then show ?thesis using Some e b ne by (simp add: Flush_def ibuf_len_def)
  next
    case (Inr y)
    obtain wr' n r where y: "y = (wr', n, r)" by (cases y) auto
    have ww: "Writer_write wr full = Some (Inr (wr', n, r))" using Some Inr y by simp
    from Writer_write_err[OF ww] b have "err wr' = r" "ibuf wr' = Some full" by simp_all
    then show ?thesis using ww e b ne by (simp add: Flush_def ibuf_len_def)
  qed
qed

lemma Flush_trace:
  assumes e: "err wr = None" and f: "Flush wr = Some (Inr (wr', r))"
  shows "respond (w wr') = respond (w wr) \<and> sink_trace (w wr) (calls (w wr')) r"
proof (cases "ibuf_len wr = 0")
  case True
  from Flush_empty[OF e True] f have "wr' = wr" "r = None" by simp_all
  then show ?thesis by (simp add: sink_trace_refl)
next
  case False
  then obtain full where b: "ibuf wr = Some full" and ne: "full \<noteq> []"
    by (cases "ibuf wr") (auto simp: ibuf_len_def)
  note fe = f[unfolded Flush_nonempty[OF e b ne]]
  from fe obtain x where s: "Writer_write wr full = Some (Inr x)"
    by (cases "Writer_write wr full") (auto split: sum.splits)
  obtain wr1 n r1 where x: "x = (wr1, n, r1)" by (cases x) auto
  from fe s x have "wr' = wr1\<lparr>ibuf := Some []\<rparr>" "r = r1" by simp_all
  then show ?thesis using Writer_write_trace[OF e s[unfolded x]] by simp
qed

lemma Close_Flush:
  "Close wr =
    (case Flush wr of
       None \<Rightarrow> None
     | Some (Inl pe) \<Rightarrow> Some (Inl pe)
     | Some (Inr (wrf, r)) \<Rightarrow>
         Some (Inr (if r = None then wrf\<lparr>err := Some errClosed\<rparr> else wrf, r)))"
proof (cases "Flush wr")
  case None
  then show ?thesis by (simp add: Close_def)
next
  case (Some x)
  show ?thesis
  proof (cases x)
    case (Inl pe)
    then show ?thesis using Some by (simp add: Close_def)
  next
    case (Inr y)
    obtain wrf r where y: "y = (wrf, r)" by (cases y) auto
    have f: "Flush wr = Some (Inr (wrf, r))" using Some Inr y by simp
    have "err wrf = r" by (rule Flush_err[OF f])
    then show ?thesis using f by (auto simp: Close_def Let_def)
  qed
qed

lemma Close_trace:
  assumes e: "err wr = None" and c: "Close wr = Some (Inr (wr', r))"
  shows "respond (w wr') = respond (w wr) \<and> sink_trace (w wr) (calls (w wr')) r
    \<and> err wr' = (if r = None then Some errClosed else r)"
proof -
  note ce = c[unfolded Close_Flush]
  from ce obtain x where s: "Flush wr = Some (Inr x)"
    by (cases "Flush wr") (auto split: sum.splits)
  obtain wrf rf where x: "x = (wrf, rf)" by (cases x) auto
  from ce s x have r: "rf = r" by simp
  from ce s x have w': "wr' = (if r = None then wrf\<lparr>err := Some errClosed\<rparr> else wrf)"
    by auto
  note t = Flush_trace[OF e s[unfolded x r]]
  have "err wrf = r" using Flush_err[OF s[unfolded x r]] .
  then show ?thesis using t w' by auto
qed

lemma Write_loop_trace:
  assumes a: "Write_loop wr p nRet = Some y"
  shows "\<forall>wr' p' n'. y = Inr (wr', p', n') \<longrightarrow>
     respond (w wr') = respond (w wr)
     \<and> (if err wr = None then sink_trace (w wr) (calls (w wr')) (err wr') else wr' = wr)"
proof (rule Write_loop.raw_induct[where P = "\<lambda>wr p nRet y.
     \<forall>wr' p' n'. y = Inr (wr', p', n') \<longrightarrow>
       respond (w wr') = respond (w wr)
       \<and> (if err wr = None then sink_trace (w wr) (calls (w wr')) (err wr') else wr' = wr)",
     OF _ a])
  fix F :: "Writer \<Rightarrow> byte list \<Rightarrow> nat \<Rightarrow> (panic + Writer \<times> byte list \<times> nat) option"
    and wr p nRet y
  assume IH: "\<And>a b c z. F a b c = Some z \<Longrightarrow>
      \<forall>wr' p' n'. z = Inr (wr', p', n') \<longrightarrow>
       respond (w wr') = respond (w a)
       \<and> (if err a = None then sink_trace (w a) (calls (w wr')) (err wr') else wr' = a)"
    and eq: "(if ibuf_cap wr - ibuf_len wr < length p \<and> err wr = None then
        (if ibuf_len wr = 0 then
           Option.bind (Writer_write wr p) (\<lambda>r.
             case r of
               Inl e \<Rightarrow> Some (Inl e)
             | Inr (wr', n, e) \<Rightarrow>
                 (case slice p n (length p) of
                    Inl e \<Rightarrow> Some (Inl e)
                  | Inr p' \<Rightarrow> F wr' p' (nRet + n)))
         else
           (let (wr1, n) = ibuf_append wr p
            in Option.bind (Flush wr1) (\<lambda>r.
                 case r of
                   Inl e \<Rightarrow> Some (Inl e)
                 | Inr (wr', e) \<Rightarrow>
                     (case slice p n (length p) of
                        Inl e \<Rightarrow> Some (Inl e)
                      | Inr p' \<Rightarrow> F wr' p' (nRet + n)))))
      else Some (Inr (wr, p, nRet))) = Some y"
  show "\<forall>wr' p' n'. y = Inr (wr', p', n') \<longrightarrow>
       respond (w wr') = respond (w wr)
       \<and> (if err wr = None then sink_trace (w wr) (calls (w wr')) (err wr') else wr' = wr)"
  proof (cases "ibuf_cap wr - ibuf_len wr < length p \<and> err wr = None")
    case False
    have "y = Inr (wr, p, nRet)" using eq[unfolded if_not_P[OF False]] by simp
    then show ?thesis by (auto simp: sink_trace_refl)
  next
    case True
    then have e: "err wr = None" by simp
    have step: "respond (w wr') = respond (w wr) \<and> sink_trace (w wr) (calls (w wr')) (err wr')"
      if s1: "respond (w wr2) = respond (w wr)" and s1': "sink_trace (w wr) (calls (w wr2)) (err wr2)"
        and s2: "F wr2 p2 n2 = Some (Inr (wr', p', n'))"
      for wr2 p2 n2 wr' p' n'
    proof (cases "err wr2")
      case None
      from IH[OF s2] None have c: "respond (w wr') = respond (w wr2)"
        and d: "sink_trace (w wr2) (calls (w wr')) (err wr')" by simp_all
      have "sink_trace (w wr) (calls (w wr')) (err wr')"
        by (rule sink_trace_trans[OF s1 s1'[unfolded None] d])
      then show ?thesis unfolding c s1 by simp
    next
      case (Some er)
      from IH[OF s2] Some have "wr' = wr2" by simp
      then show ?thesis using s1 s1' by simp
    qed
    show ?thesis
    proof (intro allI impI)
      fix wr' p' n'
      assume yI: "y = Inr (wr', p', n')"
      show "respond (w wr') = respond (w wr)
           \<and> (if err wr = None then sink_trace (w wr) (calls (w wr')) (err wr') else wr' = wr)"
      proof (cases "ibuf_len wr = 0")
        case z: True
        note eq1 = eq[unfolded if_P[OF True] if_P[OF z] yI]
        from eq1 obtain x where ww: "Writer_write wr p = Some (Inr x)"
          by (cases "Writer_write wr p") (auto split: sum.splits)
        obtain wr2 n r where x: "x = (wr2, n, r)" by (cases x) auto
        from Writer_write_err[OF ww[unfolded x]] have f1: "err wr2 = r" by simp
        note f2 = Writer_write_trace[OF e ww[unfolded x]]
        from eq1 ww x obtain p2 where
          rec: "F wr2 p2 (nRet + n) = Some (Inr (wr', p', n'))"
          by (cases "slice p n (length p)") auto
        from f2 have g1: "respond (w wr2) = respond (w wr)" by (rule conjunct1)
        from f2 have g2: "sink_trace (w wr) (calls (w wr2)) (err wr2)"
          unfolding f1 by (rule conjunct2)
        from step[OF g1 g2 rec] e show ?thesis by simp
      next
        case nz: False
        obtain wr1 n where ia: "ibuf_append wr p = (wr1, n)" by force
        have w1: "w wr1 = w wr" and e1: "err wr1 = None"
          using ia e by (auto simp: ibuf_append_def Let_def)
        note eq1 = eq[unfolded if_P[OF True] if_not_P[OF nz] ia yI, simplified]
        from eq1 obtain x where fl: "Flush wr1 = Some (Inr x)"
          by (cases "Flush wr1") (auto split: sum.splits)
        obtain wr2 r where x: "x = (wr2, r)" by (cases x) auto
        have f1: "err wr2 = r" by (rule Flush_err[OF fl[unfolded x]])
        note f2 = Flush_trace[OF e1 fl[unfolded x], unfolded w1]
        from eq1 fl x obtain p2 where
          rec: "F wr2 p2 (nRet + n) = Some (Inr (wr', p', n'))"
          by (cases "slice p n (length p)") auto
        from f2 have g1: "respond (w wr2) = respond (w wr)" by (rule conjunct1)
        from f2 have g2: "sink_trace (w wr) (calls (w wr2)) (err wr2)"
          unfolding f1 by (rule conjunct2)
        from step[OF g1 g2 rec] e show ?thesis by simp
      qed
    qed
  qed
qed

lemma Writer_Write_trace:
  assumes e: "err wr = None" and ww: "Writer_Write wr p = Some (Inr (wr', n, r))"
  shows "respond (w wr') = respond (w wr) \<and> sink_trace (w wr) (calls (w wr')) r"
proof (cases "ibuf wr = None")
  case True
  then have "Writer_write wr p = Some (Inr (wr', n, r))"
    using ww by (simp add: Writer_Write_def)
  from Writer_write_trace[OF e this] show ?thesis .
next
  case False
  with ww obtain x where lx: "Write_loop wr p 0 = Some (Inr x)"
    by (cases "Write_loop wr p 0") (auto simp: Writer_Write_def split: sum.splits)
  obtain wr1 p1 n1 where x: "x = (wr1, p1, n1)" by (cases x) auto
  from Write_loop_trace[OF lx] x e have t: "respond (w wr1) = respond (w wr)"
    "sink_trace (w wr) (calls (w wr1)) (err wr1)" by simp_all
  show ?thesis
  proof (cases "err wr1")
    case None
    then have "w wr' = w wr1" "r = None" using ww False lx x
      by (auto simp: Writer_Write_def ibuf_append_def Let_def)
    then show ?thesis using t None by simp
  next
    case (Some er)
    then have "wr' = wr1" "r = Some er" using ww False lx x by (auto simp: Writer_Write_def)
    then show ?thesis using t Some by simp
  qed
qed

lemma failing_round:
  assumes lo: "length (obuf wr) = obufLen" and lu: "length u \<le> 65536"
    and rs: "\<And>h q. respond (w wr) h q = Some er"
  shows "\<exists>wr'. write_block wr u = Some (Inr (wr', Some er)) \<and> err wr' = Some er
     \<and> ibuf wr' = ibuf wr"
proof -
  from write_block_ok[OF lo lu] obtain x where "write_block wr u = Some (Inr x)" by blast
  then obtain wr' r where wb: "write_block wr u = Some (Inr (wr', r))" by (cases x) auto
  note f = write_block_Inr[OF wb]
  from f have r: "r = Some er" unfolding rs by auto
  with f wb show ?thesis by auto
qed

lemma Close_failing:
  "\<exists>wr'. Close ((NewBufferedWriter failing_sink)\<lparr>ibuf := Some [0x61]\<rparr>)
            = Some (Inr (wr', Some (SinkError 1)))
     \<and> err wr' = Some (SinkError 1)"
proof -
  define W where "W = (NewBufferedWriter failing_sink)\<lparr>ibuf := Some [0x61]\<rparr>"
  have lo: "length (obuf W) = obufLen" by (simp add: W_def NewBufferedWriter_def)
  have lu: "length [0x61 :: byte] \<le> 65536" by simp
  have rs: "respond (w W) h q = Some (SinkError 1)" for h q
    by (simp add: W_def NewBufferedWriter_def failing_sink_def)
  have e: "err W = None" by (simp add: W_def NewBufferedWriter_def)
  have b: "ibuf W = Some [0x61]" by (simp add: W_def)
  from failing_round[OF lo lu rs] obtain wr' where
    wb: "write_block W [0x61] = Some (Inr (wr', Some (SinkError 1)))"
    and e': "err wr' = Some (SinkError 1)" by blast
  have "write_loop W [0x61] 0 = Some (Inr (wr', 0, Some (SinkError 1)))"
    using wb by (subst write_loop.simps) (simp add: maxBlockSize_def)
  then have ww: "Writer_write W [0x61] = Some (Inr (wr', 0, Some (SinkError 1)))"
    using e by (simp add: Writer_write_def)
  have fl: "Flush W = Some (Inr (wr'\<lparr>ibuf := Some []\<rparr>, Some (SinkError 1)))"
    using Flush_nonempty[OF e b] ww by simp
  have "Close W = Some (Inr (wr'\<lparr>ibuf := Some []\<rparr>, Some (SinkError 1)))"
    unfolding Close_Flush fl by simp
  then show ?thesis unfolding W_def using e' by (intro exI[of _ "wr'\<lparr>ibuf := Some []\<rparr>"]) simp
qed

lemma write_loop_shift:
  "write_loop wr p n =
     (case write_loop wr p 0 of
        None \<Rightarrow> None
      | Some (Inl pe) \<Rightarrow> Some (Inl pe)
      | Some (Inr (wr', m, r)) \<Rightarrow> Some (Inr (wr', n + m, r)))"
proof (induction "length p" arbitrary: wr p n rule: less_induct)
  case less
  show ?case
  proof (cases "length p > 0")
    case False
    then have "write_loop wr p k = Some (Inr (wr, k, None))" for k
      by (subst write_loop.simps) simp
    then show ?thesis by simp
  next
    case True
    define u where "u = (if length p > maxBlockSize then take maxBlockSize p else p)"
    define p' where "p' = (if length p > maxBlockSize then drop maxBlockSize p else [])"
    have lp: "length p' < length p" using True by (auto simp: p'_def maxBlockSize_def)
    note ih = less[OF lp]
    have un: "write_loop wr p k =
        Option.bind (write_block wr u) (\<lambda>r.
              case r of
                Inl e \<Rightarrow> Some (Inl e)
              | Inr (wr', Some er) \<Rightarrow> Some (Inr (wr', k, Some er))
              | Inr (wr', None) \<Rightarrow> write_loop wr' p' (k + length u))" for k
      using True by (subst write_loop.simps) (simp add: Let_def u_def p'_def)
    show ?thesis
    proof (cases "write_block wr u")
      case None
      then show ?thesis by (simp add: un)
    next
      case (Some x)
      show ?thesis
      proof (cases x)
        case (Inl pe)
        then show ?thesis using Some by (simp add: un)
      next
        case (Inr y)
        obtain wr1 r1 where y: "y = (wr1, r1)" by (cases y) auto
        show ?thesis
        proof (cases r1)
          case None
          have a: "write_loop wr p n = write_loop wr1 p' (n + length u)"
            using Some Inr y None by (simp add: un)
          have b: "write_loop wr p 0 = write_loop wr1 p' (length u)"
            using Some Inr y None by (simp add: un)
          show ?thesis unfolding a b ih[of wr1 "n + length u"] ih[of wr1 "length u"]
            by (cases "write_loop wr1 p' 0") (auto split: sum.splits)
        next
          case (Some er)
          then show ?thesis using \<open>write_block wr u = Some x\<close> Inr y by (simp add: un)
        qed
      qed
    qed
  qed
qed

lemma Writer_write_rounds:
  assumes e: "err wr = None"
  shows "Writer_write wr p =
     (if p = [] then Some (Inr (wr, 0, None))
      else case write_block wr (take maxBlockSize p) of
             None \<Rightarrow> None
           | Some (Inl pe) \<Rightarrow> Some (Inl pe)
           | Some (Inr (wr1, Some er)) \<Rightarrow> Some (Inr (wr1, 0, Some er))
           | Some (Inr (wr1, None)) \<Rightarrow>
               (case Writer_write wr1 (drop maxBlockSize p) of
                  None \<Rightarrow> None
                | Some (Inl pe) \<Rightarrow> Some (Inl pe)
                | Some (Inr (wr2, n, r)) \<Rightarrow>
                    Some (Inr (wr2, length (take maxBlockSize p) + n, r))))"
proof (cases "p = []")
  case True
  then show ?thesis using e by (simp add: Writer_write_def write_loop.simps)
next
  case False
  define u where "u = take maxBlockSize p"
  define p' where "p' = drop maxBlockSize p"
  have u: "(if length p > maxBlockSize then take maxBlockSize p else p) = u"
    by (simp add: u_def)
  have p': "(if length p > maxBlockSize then drop maxBlockSize p else []) = p'"
    by (simp add: p'_def)
  have un: "write_loop wr p 0 =
        Option.bind (write_block wr u) (\<lambda>r.
              case r of
                Inl e \<Rightarrow> Some (Inl e)
              | Inr (wr', Some er) \<Rightarrow> Some (Inr (wr', 0, Some er))
              | Inr (wr', None) \<Rightarrow> write_loop wr' p' (0 + length u))"
    using False by (subst write_loop.simps) (simp add: Let_def u p')
  show ?thesis
  proof (cases "write_block wr u")
    case None
    then show ?thesis using False e by (simp add: Writer_write_def un u_def[symmetric])
  next
    case (Some x)
    show ?thesis
    proof (cases x)
      case (Inl pe)
      then show ?thesis using Some False e by (simp add: Writer_write_def un u_def[symmetric])
    next
      case (Inr y)
      obtain wr1 r1 where y: "y = (wr1, r1)" by (cases y) auto
      have wb: "write_block wr u = Some (Inr (wr1, r1))" using Some Inr y by simp
      show ?thesis
      proof (cases r1)
        case None
        have e1: "err wr1 = None" using write_block_Inr[OF wb] None e by simp
        have "write_loop wr p 0 = write_loop wr1 p' (length u)"
          using wb None by (simp add: un)
        also have "\<dots> = (case write_loop wr1 p' 0 of
            None \<Rightarrow> None
          | Some (Inl pe) \<Rightarrow> Some (Inl pe)
          | Some (Inr (wr', m, r)) \<Rightarrow> Some (Inr (wr', length u + m, r)))"
          by (rule write_loop_shift)
        finally have f: "write_loop wr p 0 = (case write_loop wr1 p' 0 of
            None \<Rightarrow> None
          | Some (Inl pe) \<Rightarrow> Some (Inl pe)
          | Some (Inr (wr', m, r)) \<Rightarrow> Some (Inr (wr', length u + m, r)))" .
        show ?thesis using False e e1 wb[unfolded u_def] None f[unfolded u_def p'_def]
          by (simp add: Writer_write_def)
      next
        case (Some er)
        then show ?thesis using wb False e
          by (simp add: Writer_write_def un u_def[symmetric])
      qed
    qed
  qed
qed

text \<open>
  C9 (amended). A writer with a latched error \<open>e\<close> returns \<open>e\<close> from \<open>write\<close>, \<open>Write\<close>, \<open>Flush\<close>
  and \<open>Close\<close> and stays as it is, so nothing more reaches the sink. A round of \<open>write\<close>
  latches the error of the sink and returns it. For a writer with no latched error, each of
  \<open>write\<close>, \<open>Write\<close>, \<open>Flush\<close> and \<open>Close\<close> that returns leaves the error it returns latched
  (\<open>Close\<close> latches \<open>errClosed\<close> when it returns nil), and the calls it made to the sink were
  all answered with nil except the last, which was answered with the error returned.
  \<open>write\<close> goes through \<open>p\<close> in rounds of at most 65536 bytes and returns at the first
  round that returns an error, with the number of bytes of the rounds before. \<open>Flush\<close>
  of an empty buffer does nothing; \<open>Flush\<close> of a non-empty buffer is \<open>write\<close> of the buffer,
  after which the buffer is empty, and returns the error of \<open>write\<close>. \<open>Close\<close> is \<open>Flush\<close>,
  followed by latching \<open>errClosed\<close> if \<open>Flush\<close> left no error, and returns the error of
  \<open>Flush\<close>. After a \<open>Close\<close> that returned nil every later \<open>Write\<close>, \<open>Flush\<close> and \<open>Close\<close>
  returns \<open>errClosed\<close>; after a \<open>Close\<close> that returned an error (also the error of its own
  flush, with no error before) they return that error.
\<close>

theorem Writer_error_latched:
  "(err wr = Some e \<longrightarrow>
      Writer_write wr p = Some (Inr (wr, 0, Some e))
      \<and> Writer_Write wr p = Some (Inr (wr, 0, Some e))
      \<and> Flush wr = Some (Inr (wr, Some e))
      \<and> Close wr = Some (Inr (wr, Some e)))
   \<and> (write_block wrA u = Some (Inr (wrA', rA)) \<longrightarrow>
        err wrA' = (if rA = None then err wrA else rA)
        \<and> respond (w wrA') = respond (w wrA)
        \<and> sink_trace (w wrA) (calls (w wrA')) rA
        \<and> ((\<exists>a. calls (w wrA') = calls (w wrA) @ [a]
                \<and> rA = respond (w wrA) (calls (w wrA)) a)
           \<or> (\<exists>a. calls (w wrA') = calls (w wrA) @ [a, u]
                \<and> respond (w wrA) (calls (w wrA)) a = None
                \<and> rA = respond (w wrA) (calls (w wrA) @ [a]) u)))
   \<and> (err wrB = None \<longrightarrow>
        (Writer_write wrB pB = Some (Inr (ww, nw, rw)) \<longrightarrow>
           err ww = rw \<and> respond (w ww) = respond (w wrB)
           \<and> sink_trace (w wrB) (calls (w ww)) rw)
        \<and> (Writer_Write wrB pB = Some (Inr (wW, nW, rW)) \<longrightarrow>
           err wW = rW \<and> respond (w wW) = respond (w wrB)
           \<and> sink_trace (w wrB) (calls (w wW)) rW)
        \<and> (Flush wrB = Some (Inr (wq, rq)) \<longrightarrow>
           err wq = rq \<and> respond (w wq) = respond (w wrB)
           \<and> sink_trace (w wrB) (calls (w wq)) rq)
        \<and> (Close wrB = Some (Inr (wc, rc)) \<longrightarrow>
           err wc = (if rc = None then Some errClosed else rc)
           \<and> respond (w wc) = respond (w wrB)
           \<and> sink_trace (w wrB) (calls (w wc)) rc))
   \<and> (err wrC = None \<and> ibuf_len wrC = 0 \<longrightarrow> Flush wrC = Some (Inr (wrC, None)))
   \<and> (err wrD = None \<and> ibuf wrD = Some full \<and> full \<noteq> [] \<longrightarrow>
        Flush wrD =
          (case Writer_write wrD full of
             None \<Rightarrow> None
           | Some (Inl pe) \<Rightarrow> Some (Inl pe)
           | Some (Inr (wr', n, r)) \<Rightarrow> Some (Inr (wr'\<lparr>ibuf := Some []\<rparr>, r))))
   \<and> Close wrE =
        (case Flush wrE of
           None \<Rightarrow> None
         | Some (Inl pe) \<Rightarrow> Some (Inl pe)
         | Some (Inr (wrf, r)) \<Rightarrow>
             Some (Inr (if r = None then wrf\<lparr>err := Some errClosed\<rparr> else wrf, r)))
   \<and> (Close wrF = Some (Inr (wrF', rF)) \<longrightarrow>
        Writer_Write wrF' pF
          = Some (Inr (wrF', 0, Some (case rF of None \<Rightarrow> errClosed | Some er \<Rightarrow> er)))
        \<and> Flush wrF' = Some (Inr (wrF', Some (case rF of None \<Rightarrow> errClosed | Some er \<Rightarrow> er)))
        \<and> Close wrF' = Some (Inr (wrF', Some (case rF of None \<Rightarrow> errClosed | Some er \<Rightarrow> er))))
   \<and> (err wrG = None \<longrightarrow>
        Writer_write wrG pG =
          (if pG = [] then Some (Inr (wrG, 0, None))
           else case write_block wrG (take maxBlockSize pG) of
                  None \<Rightarrow> None
                | Some (Inl pe) \<Rightarrow> Some (Inl pe)
                | Some (Inr (wr1, Some er)) \<Rightarrow> Some (Inr (wr1, 0, Some er))
                | Some (Inr (wr1, None)) \<Rightarrow>
                    (case Writer_write wr1 (drop maxBlockSize pG) of
                       None \<Rightarrow> None
                     | Some (Inl pe) \<Rightarrow> Some (Inl pe)
                     | Some (Inr (wr2, n, r)) \<Rightarrow>
                         Some (Inr (wr2, length (take maxBlockSize pG) + n, r)))))"
proof (intro conjI impI)
  assume a: "err wr = Some e"
  show "Writer_write wr p = Some (Inr (wr, 0, Some e))" using a by (simp add: Writer_write_def)
  from latched_returns[OF a]
  show "Writer_Write wr p = Some (Inr (wr, 0, Some e))"
    "Flush wr = Some (Inr (wr, Some e))" "Close wr = Some (Inr (wr, Some e))" by simp_all
next
  assume a: "write_block wrA u = Some (Inr (wrA', rA))"
  from write_block_Inr[OF a] show "err wrA' = (if rA = None then err wrA else rA)" by simp
  from write_block_trace[OF a] show "respond (w wrA') = respond (w wrA)"
    "sink_trace (w wrA) (calls (w wrA')) rA" by simp_all
  from write_block_Inr[OF a]
  show "(\<exists>a. calls (w wrA') = calls (w wrA) @ [a]
                \<and> rA = respond (w wrA) (calls (w wrA)) a)
           \<or> (\<exists>a. calls (w wrA') = calls (w wrA) @ [a, u]
                \<and> respond (w wrA) (calls (w wrA)) a = None
                \<and> rA = respond (w wrA) (calls (w wrA) @ [a]) u)" by blast
next
  assume e: "err wrB = None" and a: "Writer_write wrB pB = Some (Inr (ww, nw, rw))"
  from Writer_write_err[OF a] show "err ww = rw" by simp
  from Writer_write_trace[OF e a] show "respond (w ww) = respond (w wrB)"
    "sink_trace (w wrB) (calls (w ww)) rw" by simp_all
next
  assume e: "err wrB = None" and a: "Writer_Write wrB pB = Some (Inr (wW, nW, rW))"
  from Writer_Write_err[OF a] show "err wW = rW" .
  from Writer_Write_trace[OF e a] show "respond (w wW) = respond (w wrB)"
    "sink_trace (w wrB) (calls (w wW)) rW" by simp_all
next
  assume e: "err wrB = None" and a: "Flush wrB = Some (Inr (wq, rq))"
  from Flush_err[OF a] show "err wq = rq" .
  from Flush_trace[OF e a] show "respond (w wq) = respond (w wrB)"
    "sink_trace (w wrB) (calls (w wq)) rq" by simp_all
next
  assume e: "err wrB = None" and a: "Close wrB = Some (Inr (wc, rc))"
  from Close_trace[OF e a] show "err wc = (if rc = None then Some errClosed else rc)"
    "respond (w wc) = respond (w wrB)" "sink_trace (w wrB) (calls (w wc)) rc" by simp_all
next
  assume "err wrC = None \<and> ibuf_len wrC = 0"
  then show "Flush wrC = Some (Inr (wrC, None))" by (intro Flush_empty) simp_all
next
  assume a: "err wrD = None \<and> ibuf wrD = Some full \<and> full \<noteq> []"
  show "Flush wrD =
          (case Writer_write wrD full of
             None \<Rightarrow> None
           | Some (Inl pe) \<Rightarrow> Some (Inl pe)
           | Some (Inr (wr', n, r)) \<Rightarrow> Some (Inr (wr'\<lparr>ibuf := Some []\<rparr>, r)))"
    using a by (intro Flush_nonempty) simp_all
next
  show "Close wrE =
        (case Flush wrE of
           None \<Rightarrow> None
         | Some (Inl pe) \<Rightarrow> Some (Inl pe)
         | Some (Inr (wrf, r)) \<Rightarrow>
             Some (Inr (if r = None then wrf\<lparr>err := Some errClosed\<rparr> else wrf, r)))"
    by (rule Close_Flush)
next
  assume a: "Close wrF = Some (Inr (wrF', rF))"
  from Close_err[OF a] have "err wrF' = Some (case rF of None \<Rightarrow> errClosed | Some er \<Rightarrow> er)"
    by (cases rF) simp_all
  from latched_returns[OF this]
  show "Writer_Write wrF' pF
          = Some (Inr (wrF', 0, Some (case rF of None \<Rightarrow> errClosed | Some er \<Rightarrow> er)))"
    "Flush wrF' = Some (Inr (wrF', Some (case rF of None \<Rightarrow> errClosed | Some er \<Rightarrow> er)))"
    "Close wrF' = Some (Inr (wrF', Some (case rF of None \<Rightarrow> errClosed | Some er \<Rightarrow> er)))"
    by simp_all
next
  assume "err wrG = None"
  then show "Writer_write wrG pG =
          (if pG = [] then Some (Inr (wrG, 0, None))
           else case write_block wrG (take maxBlockSize pG) of
                  None \<Rightarrow> None
                | Some (Inl pe) \<Rightarrow> Some (Inl pe)
                | Some (Inr (wr1, Some er)) \<Rightarrow> Some (Inr (wr1, 0, Some er))
                | Some (Inr (wr1, None)) \<Rightarrow>
                    (case Writer_write wr1 (drop maxBlockSize pG) of
                       None \<Rightarrow> None
                     | Some (Inl pe) \<Rightarrow> Some (Inl pe)
                     | Some (Inr (wr2, n, r)) \<Rightarrow>
                         Some (Inr (wr2, length (take maxBlockSize pG) + n, r))))"
    by (rule Writer_write_rounds)
qed


theorem Writer_error_latched_witness:
  "(\<exists>wr'. write_block (NewWriter failing_sink) [0x61] = Some (Inr (wr', Some (SinkError 1)))
       \<and> err wr' = Some (SinkError 1)
       \<and> sink_trace (w (NewWriter failing_sink)) (calls (w wr')) (Some (SinkError 1))
       \<and> Writer_write wr' [0x62] = Some (Inr (wr', 0, Some (SinkError 1)))
       \<and> Writer_Write wr' [0x62] = Some (Inr (wr', 0, Some (SinkError 1)))
       \<and> Flush wr' = Some (Inr (wr', Some (SinkError 1)))
       \<and> Close wr' = Some (Inr (wr', Some (SinkError 1))))
   \<and> err ((NewBufferedWriter failing_sink)\<lparr>ibuf := Some [0x61]\<rparr>) = None
   \<and> (\<exists>wc. Close ((NewBufferedWriter failing_sink)\<lparr>ibuf := Some [0x61]\<rparr>)
              = Some (Inr (wc, Some (SinkError 1)))
       \<and> err wc = Some (SinkError 1)
       \<and> sink_trace (w ((NewBufferedWriter failing_sink)\<lparr>ibuf := Some [0x61]\<rparr>))
            (calls (w wc)) (Some (SinkError 1))
       \<and> Writer_Write wc [0x62] = Some (Inr (wc, 0, Some (SinkError 1)))
       \<and> Flush wc = Some (Inr (wc, Some (SinkError 1)))
       \<and> Close wc = Some (Inr (wc, Some (SinkError 1))))
   \<and> Flush ((NewBufferedWriter failing_sink)\<lparr>ibuf := Some [0x61]\<rparr>)
       = (case Writer_write ((NewBufferedWriter failing_sink)\<lparr>ibuf := Some [0x61]\<rparr>) [0x61] of
            None \<Rightarrow> None
          | Some (Inl pe) \<Rightarrow> Some (Inl pe)
          | Some (Inr (wr', n, r)) \<Rightarrow> Some (Inr (wr'\<lparr>ibuf := Some []\<rparr>, r)))
   \<and> err (NewWriter quiet_sink) = None
   \<and> Writer_write (NewWriter quiet_sink) [] = Some (Inr (NewWriter quiet_sink, 0, None))
   \<and> sink_trace (w (NewWriter quiet_sink)) (calls (w (NewWriter quiet_sink))) None
   \<and> err (NewBufferedWriter quiet_sink) = None
   \<and> Writer_Write (NewBufferedWriter quiet_sink) [0x61]
       = Some (Inr ((NewBufferedWriter quiet_sink)\<lparr>ibuf := Some [0x61]\<rparr>, 1, None))
   \<and> err ((NewBufferedWriter quiet_sink)\<lparr>ibuf := Some [0x61]\<rparr>) = None
   \<and> sink_trace (w (NewBufferedWriter quiet_sink))
        (calls (w ((NewBufferedWriter quiet_sink)\<lparr>ibuf := Some [0x61]\<rparr>))) None
   \<and> ibuf_len (NewBufferedWriter quiet_sink) = 0
   \<and> Flush (NewBufferedWriter quiet_sink) = Some (Inr (NewBufferedWriter quiet_sink, None))
   \<and> Close (NewBufferedWriter quiet_sink)
       = Some (Inr ((NewBufferedWriter quiet_sink)\<lparr>err := Some errClosed\<rparr>, None))
   \<and> Writer_Write ((NewBufferedWriter quiet_sink)\<lparr>err := Some errClosed\<rparr>) [0x61]
       = Some (Inr ((NewBufferedWriter quiet_sink)\<lparr>err := Some errClosed\<rparr>, 0, Some errClosed))
   \<and> Flush ((NewBufferedWriter quiet_sink)\<lparr>err := Some errClosed\<rparr>)
       = Some (Inr ((NewBufferedWriter quiet_sink)\<lparr>err := Some errClosed\<rparr>, Some errClosed))
   \<and> Close ((NewBufferedWriter quiet_sink)\<lparr>err := Some errClosed\<rparr>)
       = Some (Inr ((NewBufferedWriter quiet_sink)\<lparr>err := Some errClosed\<rparr>, Some errClosed))"
proof -
  have lo: "length (obuf (NewWriter failing_sink)) = obufLen" by (simp add: NewWriter_def)
  have lu: "length [0x61 :: byte] \<le> 65536" by simp
  have rs: "respond (w (NewWriter failing_sink)) h q = Some (SinkError 1)" for h q
    by (simp add: NewWriter_def failing_sink_def)
  from failing_round[OF lo lu rs] obtain wr' where
    wb: "write_block (NewWriter failing_sink) [0x61] = Some (Inr (wr', Some (SinkError 1)))"
    by blast
  note t2 = Writer_error_latched[where wrA = "NewWriter failing_sink" and u = "[0x61]"
      and wrA' = wr' and rA = "Some (SinkError 1)",
      THEN conjunct2, THEN conjunct1, rule_format, OF wb]
  from t2 have e: "err wr' = Some (SinkError 1)" by simp
  from t2 have tr: "sink_trace (w (NewWriter failing_sink)) (calls (w wr')) (Some (SinkError 1))"
    by (elim conjE)
  note t1 = Writer_error_latched[where wr = wr' and e = "SinkError 1" and p = "[0x62]",
      THEN conjunct1, rule_format, OF e]
  have A: "\<exists>wr'. write_block (NewWriter failing_sink) [0x61] = Some (Inr (wr', Some (SinkError 1)))
       \<and> err wr' = Some (SinkError 1)
       \<and> sink_trace (w (NewWriter failing_sink)) (calls (w wr')) (Some (SinkError 1))
       \<and> Writer_write wr' [0x62] = Some (Inr (wr', 0, Some (SinkError 1)))
       \<and> Writer_Write wr' [0x62] = Some (Inr (wr', 0, Some (SinkError 1)))
       \<and> Flush wr' = Some (Inr (wr', Some (SinkError 1)))
       \<and> Close wr' = Some (Inr (wr', Some (SinkError 1)))"
    using wb e tr t1 by blast
  define W where "W = (NewBufferedWriter failing_sink)\<lparr>ibuf := Some [0x61]\<rparr>"
  have eW: "err W = None" by (simp add: W_def NewBufferedWriter_def)
  from Close_failing obtain wc where
    cl: "Close W = Some (Inr (wc, Some (SinkError 1)))" unfolding W_def by blast
  note t3 = Writer_error_latched[where wrB = W and wc = wc and rc = "Some (SinkError 1)",
      THEN conjunct2, THEN conjunct2, THEN conjunct1, rule_format, OF eW,
      THEN conjunct2, THEN conjunct2, THEN conjunct2, rule_format, OF cl]
  from t3 have ec: "err wc = Some (SinkError 1)" by simp
  from t3 have tc: "sink_trace (w W) (calls (w wc)) (Some (SinkError 1))" by (elim conjE)
  note t7 = Writer_error_latched[where wrF = W and wrF' = wc and rF = "Some (SinkError 1)"
      and pF = "[0x62]", THEN conjunct2, THEN conjunct2, THEN conjunct2, THEN conjunct2,
      THEN conjunct2, THEN conjunct2, THEN conjunct1, rule_format, OF cl, unfolded option.case]
  have B: "\<exists>wc. Close W = Some (Inr (wc, Some (SinkError 1)))
       \<and> err wc = Some (SinkError 1)
       \<and> sink_trace (w W) (calls (w wc)) (Some (SinkError 1))
       \<and> Writer_Write wc [0x62] = Some (Inr (wc, 0, Some (SinkError 1)))
       \<and> Flush wc = Some (Inr (wc, Some (SinkError 1)))
       \<and> Close wc = Some (Inr (wc, Some (SinkError 1)))"
    using cl ec tc t7 by blast
  have hW: "err W = None \<and> ibuf W = Some [0x61] \<and> [0x61 :: byte] \<noteq> []"
    by (simp add: W_def NewBufferedWriter_def)
  note t5 = Writer_error_latched[where wrD = W and full = "[0x61]",
      THEN conjunct2, THEN conjunct2, THEN conjunct2, THEN conjunct2, THEN conjunct1,
      rule_format, OF hW]
  have eN: "err (NewWriter quiet_sink) = None" by (simp add: NewWriter_def)
  note t8 = Writer_error_latched[where wrG = "NewWriter quiet_sink" and pG = "[]",
      THEN conjunct2, THEN conjunct2, THEN conjunct2, THEN conjunct2, THEN conjunct2,
      THEN conjunct2, THEN conjunct2, rule_format, OF eN]
  have wN: "Writer_write (NewWriter quiet_sink) [] = Some (Inr (NewWriter quiet_sink, 0, None))"
    unfolding t8 by simp
  note t3w = Writer_error_latched[where wrB = "NewWriter quiet_sink" and pB = "[]",
      THEN conjunct2, THEN conjunct2, THEN conjunct1, rule_format, OF eN,
      THEN conjunct1, rule_format, OF wN]
  from t3w have trN: "sink_trace (w (NewWriter quiet_sink)) (calls (w (NewWriter quiet_sink))) None"
    by (elim conjE)
  have eQ: "err (NewBufferedWriter quiet_sink) = None" by (simp add: NewBufferedWriter_def)
  have wQ: "Writer_Write (NewBufferedWriter quiet_sink) [0x61]
       = Some (Inr ((NewBufferedWriter quiet_sink)\<lparr>ibuf := Some [0x61]\<rparr>, 1, None))"
    by (simp add: Writer_Write_def NewBufferedWriter_def Write_loop.simps ibuf_cap_def
        ibuf_len_def ibuf_append_def maxBlockSize_def)
  note t3W = Writer_error_latched[where wrB = "NewBufferedWriter quiet_sink" and pB = "[0x61]",
      THEN conjunct2, THEN conjunct2, THEN conjunct1, rule_format, OF eQ,
      THEN conjunct2, THEN conjunct1, rule_format, OF wQ]
  from t3W have eQ1: "err ((NewBufferedWriter quiet_sink)\<lparr>ibuf := Some [0x61]\<rparr>) = None"
    by (elim conjE)
  from t3W have trQ: "sink_trace (w (NewBufferedWriter quiet_sink))
        (calls (w ((NewBufferedWriter quiet_sink)\<lparr>ibuf := Some [0x61]\<rparr>))) None"
    by (elim conjE)
  have lQ: "ibuf_len (NewBufferedWriter quiet_sink) = 0"
    by (simp add: ibuf_len_def NewBufferedWriter_def)
  have hQ: "err (NewBufferedWriter quiet_sink) = None \<and> ibuf_len (NewBufferedWriter quiet_sink) = 0"
    using eQ lQ by simp
  note t4 = Writer_error_latched[where wrC = "NewBufferedWriter quiet_sink",
      THEN conjunct2, THEN conjunct2, THEN conjunct2, THEN conjunct1, rule_format, OF hQ]
  note t6 = Writer_error_latched[where wrE = "NewBufferedWriter quiet_sink",
      THEN conjunct2, THEN conjunct2, THEN conjunct2, THEN conjunct2, THEN conjunct2,
      THEN conjunct1]
  have cQ: "Close (NewBufferedWriter quiet_sink)
       = Some (Inr ((NewBufferedWriter quiet_sink)\<lparr>err := Some errClosed\<rparr>, None))"
    unfolding t6 t4 by simp
  note t7Q = Writer_error_latched[where wrF = "NewBufferedWriter quiet_sink"
      and pF = "[0x61]", THEN conjunct2, THEN conjunct2, THEN conjunct2, THEN conjunct2,
      THEN conjunct2, THEN conjunct2, THEN conjunct1, rule_format, OF cQ, unfolded option.case]
  show ?thesis
    using A eW[unfolded W_def] B[unfolded W_def] t5[unfolded W_def] eN wN trN eQ wQ eQ1 trQ
      lQ t4 cQ t7Q
    by blast
qed

text \<open>
  C9 as stated fails: a new buffered writer, with no error before, buffers one byte; its
  sink refuses the flush of \<open>Close\<close>, so \<open>Close\<close> returns the error of the sink, and every
  later \<open>Write\<close>, \<open>Flush\<close> and \<open>Close\<close> returns that error, not \<open>errClosed\<close>.
\<close>

theorem Close_failed_flush_counterexample:
  "err (NewBufferedWriter failing_sink) = None
   \<and> Writer_Write (NewBufferedWriter failing_sink) [0x61]
       = Some (Inr ((NewBufferedWriter failing_sink)\<lparr>ibuf := Some [0x61]\<rparr>, 1, None))
   \<and> err ((NewBufferedWriter failing_sink)\<lparr>ibuf := Some [0x61]\<rparr>) = None
   \<and> (\<exists>wr'. Close ((NewBufferedWriter failing_sink)\<lparr>ibuf := Some [0x61]\<rparr>)
              = Some (Inr (wr', Some (SinkError 1)))
       \<and> Writer_Write wr' [0x62] = Some (Inr (wr', 0, Some (SinkError 1)))
       \<and> Flush wr' = Some (Inr (wr', Some (SinkError 1)))
       \<and> Close wr' = Some (Inr (wr', Some (SinkError 1))))
   \<and> SinkError 1 \<noteq> errClosed"
proof -
  have a: "err (NewBufferedWriter failing_sink) = None" by (simp add: NewBufferedWriter_def)
  have b: "Writer_Write (NewBufferedWriter failing_sink) [0x61]
       = Some (Inr ((NewBufferedWriter failing_sink)\<lparr>ibuf := Some [0x61]\<rparr>, 1, None))"
    by (simp add: Writer_Write_def NewBufferedWriter_def Write_loop.simps ibuf_cap_def
        ibuf_len_def ibuf_append_def maxBlockSize_def)
  have c: "err ((NewBufferedWriter failing_sink)\<lparr>ibuf := Some [0x61]\<rparr>) = None"
    by (simp add: NewBufferedWriter_def)
  from Close_failing obtain wr' where
    cl: "Close ((NewBufferedWriter failing_sink)\<lparr>ibuf := Some [0x61]\<rparr>)
              = Some (Inr (wr', Some (SinkError 1)))"
    and e: "err wr' = Some (SinkError 1)" by blast
  note l = latched_returns(1)[OF e, of "[0x62]"] latched_returns(2,3)[OF e]
  have d: "SinkError 1 \<noteq> errClosed" by simp
  show ?thesis using a b c cl l d by blast
qed

section \<open>The buffered Write\<close>

lemma Write_fits:
  assumes b: "ibuf wr = Some b" and e: "err wr = None"
    and p: "length p \<le> maxBlockSize - length b"
  shows "Writer_Write wr p = Some (Inr (wr\<lparr>ibuf := Some (b @ p)\<rparr>, length p, None))"
proof -
  have l: "Write_loop wr p 0 = Some (Inr (wr, p, 0))"
    using b p by (subst Write_loop.simps) (simp add: ibuf_cap_def ibuf_len_def)
  show ?thesis using b e p
    by (simp add: Writer_Write_def l ibuf_append_def ibuf_cap_def ibuf_len_def)
qed

lemma Flush_full:
  assumes b: "ibuf wr = Some full" and e: "err wr = None"
    and l: "0 < length full" "length full \<le> maxBlockSize"
  shows "Flush wr = Option.bind (write_block wr full) (\<lambda>r.
           case r of
             Inl e \<Rightarrow> Some (Inl e)
           | Inr (wr', e) \<Rightarrow> Some (Inr (wr'\<lparr>ibuf := Some []\<rparr>, err wr')))"
proof (cases "write_block wr full")
  case None
  then show ?thesis using b e l
    by (simp add: Flush_def Writer_write_def write_loop.simps[of wr full] ibuf_len_def)
next
  case (Some x)
  show ?thesis
  proof (cases x)
    case (Inl pe)
    then show ?thesis using Some b e l
      by (simp add: Flush_def Writer_write_def write_loop.simps[of wr full] ibuf_len_def)
  next
    case (Inr y)
    obtain wr' r where y: "y = (wr', r)" by (cases y) auto
    have wb: "write_block wr full = Some (Inr (wr', r))" using Some Inr y by simp
    have i: "ibuf wr' = Some full" using write_block_Inr[OF wb] b by simp
    show ?thesis
    proof (cases r)
      case None
      have "write_loop wr' [] (length full) = Some (Inr (wr', length full, None))"
        by (subst write_loop.simps) simp
      then show ?thesis using wb None b e l i
        by (simp add: Flush_def Writer_write_def write_loop.simps[of wr full] ibuf_len_def)
    next
      case (Some er)
      then show ?thesis using wb b e l i
        by (simp add: Flush_def Writer_write_def write_loop.simps[of wr full] ibuf_len_def)
    qed
  qed
qed

lemma Write_loop_fill:
  assumes b: "ibuf wr = Some b" and lb: "length b \<le> maxBlockSize" and e: "err wr = None"
    and ne: "b \<noteq> []" and p: "maxBlockSize - length b < length p"
  shows "Write_loop wr p 0 =
     Option.bind (write_block (wr\<lparr>ibuf := Some (b @ take (maxBlockSize - length b) p)\<rparr>)
                    (b @ take (maxBlockSize - length b) p)) (\<lambda>r.
       case r of
         Inl e \<Rightarrow> Some (Inl e)
       | Inr (wr', e) \<Rightarrow>
           Write_loop (wr'\<lparr>ibuf := Some []\<rparr>) (drop (maxBlockSize - length b) p)
             (maxBlockSize - length b))"
proof -
  define n where "n = maxBlockSize - length b"
  define full where "full = b @ take n p"
  define wr1 where "wr1 = wr\<lparr>ibuf := Some full\<rparr>"
  have ia: "ibuf_append wr p = (wr1, n)"
    using b p by (simp add: ibuf_append_def ibuf_cap_def ibuf_len_def n_def wr1_def full_def Let_def)
  have lf1: "0 < length full" using ne by (simp add: full_def)
  have lf2: "length full \<le> maxBlockSize" using lb p by (simp add: full_def n_def)
  note lf = lf1 lf2
  have f: "Flush wr1 = Option.bind (write_block wr1 full) (\<lambda>r.
           case r of
             Inl e \<Rightarrow> Some (Inl e)
           | Inr (wr', e) \<Rightarrow> Some (Inr (wr'\<lparr>ibuf := Some []\<rparr>, err wr')))"
    using e by (intro Flush_full lf) (simp_all add: wr1_def)
  have sl: "slice p n (length p) = Inr (drop n p)"
    using p by (simp add: slice_def n_def)
  have c: "ibuf_cap wr - ibuf_len wr < length p \<and> err wr = None" "ibuf_len wr \<noteq> 0"
    using b p e ne by (simp_all add: ibuf_cap_def ibuf_len_def)
  have "Write_loop wr p 0 =
     Option.bind (Flush wr1) (\<lambda>r.
                 case r of
                   Inl e \<Rightarrow> Some (Inl e)
                 | Inr (wr', e) \<Rightarrow> Write_loop wr' (drop n p) n)"
    using c by (subst Write_loop.simps) (simp add: ia sl)
  also have "\<dots> = Option.bind (write_block wr1 full) (\<lambda>r.
       case r of
         Inl e \<Rightarrow> Some (Inl e)
       | Inr (wr', e) \<Rightarrow> Write_loop (wr'\<lparr>ibuf := Some []\<rparr>) (drop n p) n)"
    unfolding f by (cases "write_block wr1 full") (auto split: sum.splits)
  finally show ?thesis unfolding wr1_def full_def n_def .
qed

lemma Write_direct:
  assumes b: "ibuf wr = Some []" and e: "err wr = None" and p: "maxBlockSize < length p"
  shows "Writer_Write wr p = Writer_write wr p"
proof -
  have c: "ibuf_cap wr - ibuf_len wr < length p \<and> err wr = None" "ibuf_len wr = 0"
    using b p e by (simp_all add: ibuf_cap_def ibuf_len_def)
  have wl: "Write_loop wr p 0 =
     Option.bind (Writer_write wr p) (\<lambda>r.
             case r of
               Inl e \<Rightarrow> Some (Inl e)
             | Inr (wr', n, e) \<Rightarrow>
                 (case slice p n (length p) of
                    Inl e \<Rightarrow> Some (Inl e)
                  | Inr p' \<Rightarrow> Write_loop wr' p' (0 + n)))"
    using c by (subst Write_loop.simps) simp
  show ?thesis
  proof (cases "Writer_write wr p")
    case None
    then show ?thesis using b by (simp add: Writer_Write_def wl)
  next
    case (Some x)
    show ?thesis
    proof (cases x)
      case (Inl pe)
      then show ?thesis using Some b by (simp add: Writer_Write_def wl)
    next
      case (Inr y)
      obtain wr' n r where y: "y = (wr', n, r)" by (cases y) auto
      have ww: "Writer_write wr p = Some (Inr (wr', n, r))" using Some Inr y by simp
      note f = Writer_write_err[OF ww]
      have wl0: "write_loop wr p 0 = Some (Inr (wr', n, r))"
        using ww e by (simp add: Writer_write_def)
      have sl: "slice p n (length p) = Inr (drop n p)" using f by (simp add: slice_def)
      have i: "ibuf wr' = Some []" using f b by simp
      show ?thesis
      proof (cases r)
        case None
        then have n: "n = length p" using write_loop_facts[OF wl0] by simp
        have "Write_loop wr' [] n = Some (Inr (wr', [], n))"
          by (subst Write_loop.simps) simp
        moreover have "ibuf_append wr' [] = (wr', 0)"
          using i by (cases wr') (simp add: ibuf_append_def)
        ultimately show ?thesis using ww f None b n sl
          by (simp add: Writer_Write_def wl)
      next
        case (Some er)
        then have "err wr' = Some er" using f by simp
        then have "Write_loop wr' (drop n p) n = Some (Inr (wr', drop n p, n))"
          by (subst Write_loop.simps) simp
        then show ?thesis using ww f Some b sl
          by (simp add: Writer_Write_def wl)
      qed
    qed
  qed
qed


text \<open>
  C8 (amended). For a buffered writer with no latched error, whose input buffer holds \<open>b\<close>
  (at most 65536 bytes): if \<open>p\<close> fits into the free space, \<open>Write\<close> only appends \<open>p\<close> to the
  input buffer, also when that fills it to 65536 bytes; if \<open>p\<close> is longer than the free
  space and the buffer is not empty, \<open>Write\<close> fills the buffer to 65536 bytes, writes it as
  one block, empties it and goes on with the rest of \<open>p\<close>; if the buffer is empty and \<open>p\<close>
  is longer than 65536 bytes, \<open>Write\<close> is \<open>write\<close> on \<open>p\<close>, and the input buffer stays empty.
\<close>

theorem Write_buffered:
  assumes "ibuf wr = Some b" and "length b \<le> maxBlockSize" and "err wr = None"
  shows "(length p \<le> maxBlockSize - length b \<longrightarrow>
        Writer_Write wr p = Some (Inr (wr\<lparr>ibuf := Some (b @ p)\<rparr>, length p, None)))
    \<and> (b \<noteq> [] \<and> maxBlockSize - length b < length p \<longrightarrow>
        length (b @ take (maxBlockSize - length b) p) = maxBlockSize
        \<and> Write_loop wr p 0 =
            Option.bind (write_block (wr\<lparr>ibuf := Some (b @ take (maxBlockSize - length b) p)\<rparr>)
                           (b @ take (maxBlockSize - length b) p)) (\<lambda>r.
              case r of
                Inl e \<Rightarrow> Some (Inl e)
              | Inr (wr', e) \<Rightarrow>
                  Write_loop (wr'\<lparr>ibuf := Some []\<rparr>) (drop (maxBlockSize - length b) p)
                    (maxBlockSize - length b)))
    \<and> (b = [] \<and> maxBlockSize < length p \<longrightarrow>
        Writer_Write wr p = Writer_write wr p
        \<and> (\<forall>wr' n r. Writer_write wr p = Some (Inr (wr', n, r)) \<longrightarrow> ibuf wr' = Some []))"
proof (intro conjI impI allI)
  assume "length p \<le> maxBlockSize - length b"
  then show "Writer_Write wr p = Some (Inr (wr\<lparr>ibuf := Some (b @ p)\<rparr>, length p, None))"
    by (rule Write_fits[OF assms(1,3)])
next
  assume a: "b \<noteq> [] \<and> maxBlockSize - length b < length p"
  show "length (b @ take (maxBlockSize - length b) p) = maxBlockSize"
    using a assms(2) by simp
  show "Write_loop wr p 0 =
            Option.bind (write_block (wr\<lparr>ibuf := Some (b @ take (maxBlockSize - length b) p)\<rparr>)
                           (b @ take (maxBlockSize - length b) p)) (\<lambda>r.
              case r of
                Inl e \<Rightarrow> Some (Inl e)
              | Inr (wr', e) \<Rightarrow>
                  Write_loop (wr'\<lparr>ibuf := Some []\<rparr>) (drop (maxBlockSize - length b) p)
                    (maxBlockSize - length b))"
    using a by (intro Write_loop_fill[OF assms]) simp_all
next
  assume a: "b = [] \<and> maxBlockSize < length p"
  show "Writer_Write wr p = Writer_write wr p"
    using a assms by (intro Write_direct) simp_all
next
  fix wr' n r
  assume a: "b = [] \<and> maxBlockSize < length p"
    and ww: "Writer_write wr p = Some (Inr (wr', n, r))"
  show "ibuf wr' = Some []" using Writer_write_err[OF ww] a assms(1) by simp
qed

theorem Write_buffered_witness:
  "ibuf (NewBufferedWriter quiet_sink) = Some [] \<and> length ([] :: byte list) \<le> maxBlockSize
   \<and> err (NewBufferedWriter quiet_sink) = None
   \<and> length [1, 2, 3 :: byte] \<le> maxBlockSize - length ([] :: byte list)
   \<and> Writer_Write (NewBufferedWriter quiet_sink) [1, 2, 3]
       = Some (Inr ((NewBufferedWriter quiet_sink)\<lparr>ibuf := Some ([] @ [1, 2, 3])\<rparr>,
                    length [1, 2, 3 :: byte], None))
   \<and> maxBlockSize < length (replicate 65537 (0 :: byte))
   \<and> Writer_Write (NewBufferedWriter quiet_sink) (replicate 65537 0)
       = Writer_write (NewBufferedWriter quiet_sink) (replicate 65537 0)
   \<and> ibuf ((NewBufferedWriter quiet_sink)\<lparr>ibuf := Some [7]\<rparr>) = Some [7]
   \<and> length [7 :: byte] \<le> maxBlockSize
   \<and> err ((NewBufferedWriter quiet_sink)\<lparr>ibuf := Some [7]\<rparr>) = None
   \<and> [7 :: byte] \<noteq> [] \<and> maxBlockSize - length [7 :: byte] < length (replicate 65536 (0 :: byte))
   \<and> length ([7 :: byte] @ take (maxBlockSize - length [7 :: byte]) (replicate 65536 0))
       = maxBlockSize"
proof -
  have h1: "ibuf (NewBufferedWriter quiet_sink) = Some []" by (simp add: NewBufferedWriter_def)
  have h2: "length ([] :: byte list) \<le> maxBlockSize" by simp
  have h3: "err (NewBufferedWriter quiet_sink) = None" by (simp add: NewBufferedWriter_def)
  have a: "length [1, 2, 3 :: byte] \<le> maxBlockSize - length ([] :: byte list)"
    by (simp add: maxBlockSize_def)
  have c: "[] = ([] :: byte list) \<and> maxBlockSize < length (replicate 65537 (0 :: byte))"
    by (simp add: maxBlockSize_def)
  note t1 = Write_buffered[OF h1 h2 h3, of "[1, 2, 3]", THEN conjunct1, rule_format, OF a]
  note t3 = Write_buffered[OF h1 h2 h3, of "replicate 65537 0", THEN conjunct2, THEN conjunct2,
      rule_format, OF c, THEN conjunct1]
  have g1: "ibuf ((NewBufferedWriter quiet_sink)\<lparr>ibuf := Some [7]\<rparr>) = Some [7]" by simp
  have g2: "length [7 :: byte] \<le> maxBlockSize" by (simp add: maxBlockSize_def)
  have g3: "err ((NewBufferedWriter quiet_sink)\<lparr>ibuf := Some [7]\<rparr>) = None"
    by (simp add: NewBufferedWriter_def)
  have b: "[7 :: byte] \<noteq> []
      \<and> maxBlockSize - length [7 :: byte] < length (replicate 65536 (0 :: byte))"
    by (simp add: maxBlockSize_def)
  note t2 = Write_buffered[OF g1 g2 g3, of "replicate 65536 0", THEN conjunct2, THEN conjunct1,
      rule_format, OF b, THEN conjunct1]
  show ?thesis using h1 h2 h3 a c t1 t3 g1 g2 g3 b t2 by blast
qed

text \<open>
  C8 as stated fails: a piece of exactly 65536 bytes written to a new buffered writer is
  copied into the input buffer, which is then full; nothing is flushed and the sink is not
  called.
\<close>

theorem Write_block_sized_counterexample:
  "length (replicate 65536 (0 :: byte)) = maxBlockSize
   \<and> ibuf (NewBufferedWriter quiet_sink) = Some [] \<and> err (NewBufferedWriter quiet_sink) = None
   \<and> Writer_Write (NewBufferedWriter quiet_sink) (replicate 65536 0)
       = Some (Inr ((NewBufferedWriter quiet_sink)\<lparr>ibuf := Some (replicate 65536 0)\<rparr>,
                    65536, None))
   \<and> calls (w ((NewBufferedWriter quiet_sink)\<lparr>ibuf := Some (replicate 65536 0)\<rparr>)) = []"
  by (simp add: Writer_Write_def NewBufferedWriter_def Write_loop.simps ibuf_cap_def
      ibuf_len_def ibuf_append_def maxBlockSize_def quiet_sink_def)

end
